theory Spec2Isabelle
  imports Main "HOL-Library.Word"
begin

section \<open>Strings: the pieces of Go's strings and regexp packages the code calls\<close>

text \<open>
  Go strings are byte sequences; they are modelled as \<open>string\<close> (a list of 8-bit
  characters). The three regular expressions of the package are anchored or made of single
  character classes, so each is written out as the scanner it denotes under Go's
  leftmost-first matching.
\<close>

text \<open>The class \<open>\s\<close> of Go's regexp syntax: tab, line feed, form feed, carriage return, space.\<close>

definition re_space :: "char \<Rightarrow> bool" where
  "re_space c = (c = CHR 0x09 \<or> c = CHR 0x0A \<or> c = CHR 0x0C \<or> c = CHR 0x0D \<or> c = CHR 0x20)"

text \<open>
  \<open>unicode.IsSpace\<close>, on the UTF-8 encoding: the six ASCII white-space bytes, U+0085,
  U+00A0, U+1680, U+2000 to U+200A, U+2028, U+2029, U+202F, U+205F and U+3000.
\<close>

definition unicode_spaces :: "string list" where
  "unicode_spaces =
     [[CHR 0x09], [CHR 0x0A], [CHR 0x0B], [CHR 0x0C], [CHR 0x0D], [CHR 0x20],
      [CHR 0xC2, CHR 0x85], [CHR 0xC2, CHR 0xA0], [CHR 0xE1, CHR 0x9A, CHR 0x80],
      [CHR 0xE2, CHR 0x80, CHR 0x80], [CHR 0xE2, CHR 0x80, CHR 0x81],
      [CHR 0xE2, CHR 0x80, CHR 0x82], [CHR 0xE2, CHR 0x80, CHR 0x83],
      [CHR 0xE2, CHR 0x80, CHR 0x84], [CHR 0xE2, CHR 0x80, CHR 0x85],
      [CHR 0xE2, CHR 0x80, CHR 0x86], [CHR 0xE2, CHR 0x80, CHR 0x87],
      [CHR 0xE2, CHR 0x80, CHR 0x88], [CHR 0xE2, CHR 0x80, CHR 0x89],
      [CHR 0xE2, CHR 0x80, CHR 0x8A], [CHR 0xE2, CHR 0x80, CHR 0xA8],
      [CHR 0xE2, CHR 0x80, CHR 0xA9], [CHR 0xE2, CHR 0x80, CHR 0xAF],
      [CHR 0xE2, CHR 0x81, CHR 0x9F], [CHR 0xE3, CHR 0x80, CHR 0x80]]"

text \<open>Dropping one leading white-space rune, if the string starts with one.\<close>

fun strip_space :: "string list \<Rightarrow> string \<Rightarrow> string option" where
  "strip_space [] s = None"
| "strip_space (sp # sps) s =
     (if sp \<noteq> [] \<and> take (length sp) s = sp then Some (drop (length sp) s)
      else strip_space sps s)"

text \<open>
  \<open>trim_left n s\<close> removes leading white space, looking at no more than \<open>n\<close> runes; with
  \<open>n = length s\<close> that is all of them.
\<close>

fun trim_left :: "nat \<Rightarrow> string \<Rightarrow> string" where
  "trim_left 0 s = s"
| "trim_left (Suc n) s =
     (case strip_space unicode_spaces s of None \<Rightarrow> s | Some r \<Rightarrow> trim_left n r)"

text \<open>
  Trailing white space: a string ends with the encoding of a rune exactly when its reversal
  starts with the reversed encoding.
\<close>

fun trim_right :: "nat \<Rightarrow> string \<Rightarrow> string" where
  "trim_right 0 s = s"
| "trim_right (Suc n) s =
     (case strip_space (map rev unicode_spaces) (rev s) of
        None \<Rightarrow> s
      | Some r \<Rightarrow> trim_right n (rev r))"

definition TrimSpace :: "string \<Rightarrow> string" where
  "TrimSpace s = (let l = trim_left (length s) s in trim_right (length l) l)"

text \<open>\<open>strings.Split(s, sep)\<close> for a one-byte separator: one more piece than separators.\<close>

fun Split :: "char \<Rightarrow> string \<Rightarrow> string list" where
  "Split sep [] = [[]]"
| "Split sep (c # cs) =
     (if c = sep then [] # Split sep cs
      else (case Split sep cs of [] \<Rightarrow> [[c]] | w # ws \<Rightarrow> (c # w) # ws))"

text \<open>
  \<open>commaRE = (,\s*,)+\<close>. One unit \<open>,\s*,\<close> at the head of the string leaves the rest
  after its second comma; \<open>\s*\<close> has one way to match since a comma is no white space.
\<close>

fun comma_unit :: "string \<Rightarrow> string option" where
  "comma_unit [] = None"
| "comma_unit (c # cs) =
     (if c = CHR '','' then
        (case dropWhile re_space cs of
           [] \<Rightarrow> None
         | d # ds \<Rightarrow> if d = CHR '','' then Some ds else None)
      else None)"

text \<open>
  The greedy \<open>+\<close>: as many further units as follow directly. The counter bounds the number
  of units by the length of the text.
\<close>

fun comma_units :: "nat \<Rightarrow> string \<Rightarrow> string" where
  "comma_units 0 s = s"
| "comma_units (Suc n) s =
     (case comma_unit s of None \<Rightarrow> s | Some r \<Rightarrow> comma_units n r)"

text \<open>
  \<open>commaRE.ReplaceAllString(s, ",")\<close>: scanning from the left, every match (a unit and the
  units that follow it) becomes one comma; a byte where no match starts is copied.
  \<open>commaRE_replace n s\<close> scans at most \<open>n\<close> bytes.
\<close>

fun commaRE_replace :: "nat \<Rightarrow> string \<Rightarrow> string" where
  "commaRE_replace 0 s = s"
| "commaRE_replace (Suc n) [] = []"
| "commaRE_replace (Suc n) (c # cs) =
     (case comma_unit (c # cs) of
        None \<Rightarrow> c # commaRE_replace n cs
      | Some r \<Rightarrow> CHR '','' # commaRE_replace n (comma_units (length r) r))"

definition commaRE_ReplaceAllString :: "string \<Rightarrow> string" where
  "commaRE_ReplaceAllString s = commaRE_replace (length s) s"

text \<open>
  \<open>attrRE = \[([^\]]+)\]$\<close>, \<open>FindStringSubmatch\<close>: the match has to end the string with
  \<open>]\<close>, and between its \<open>[\<close> and that \<open>]\<close> stands a non-empty text without \<open>]\<close>. So the
  match lies in the last stretch of the string that is free of \<open>]\<close>, and the leftmost match
  starts at the first \<open>[\<close> of that stretch. The result is the pair of the whole match and of
  the group, or \<open>None\<close> for Go's empty slice.
\<close>

definition attrRE_FindStringSubmatch :: "string \<Rightarrow> (string \<times> string) option" where
  "attrRE_FindStringSubmatch s =
     (case rev s of
        [] \<Rightarrow> None
      | l # body \<Rightarrow>
          if l \<noteq> CHR '']'' then None
          else
            (case dropWhile (\<lambda>c. c \<noteq> CHR ''['') (rev (takeWhile (\<lambda>c. c \<noteq> CHR '']'') body)) of
               [] \<Rightarrow> None
             | b # inner \<Rightarrow> if inner = [] then None else Some (b # inner @ [l], inner)))"

section \<open>Selector model (web/selector.go)\<close>

record Selector =
  Query :: string
  Attr :: string

text \<open>
  The four selector groups. The fields are \<open>Links\<close>, \<open>Downloads\<close>, \<open>Prints\<close> and
  \<open>Titles\<close> in the source; they carry a prefix here because \<open>Page\<close> has fields of the
  same names.
\<close>

record Selectors =
  sel_Links :: "Selector list"
  sel_Downloads :: "Selector list"
  sel_Prints :: "Selector list"
  sel_Titles :: "Selector list"

definition newSelector :: "string \<Rightarrow> Selector" where
  "newSelector s =
     (case attrRE_FindStringSubmatch s of
        None \<Rightarrow> \<lparr>Query = s, Attr = []\<rparr>
      | Some (m0, m1) \<Rightarrow> \<lparr>Query = take (length s - length m0) s, Attr = m1\<rparr>)"

text \<open>The loop of \<open>NewSelector\<close> over the pieces: trim, skip the empty ones, append.\<close>

fun NewSelector_loop :: "string list \<Rightarrow> Selector list \<Rightarrow> Selector list" where
  "NewSelector_loop [] l = l"
| "NewSelector_loop (s # sp) l =
     (let s' = TrimSpace s in
      if s' = [] then NewSelector_loop sp l
      else NewSelector_loop sp (l @ [newSelector s']))"

definition NewSelector :: "string \<Rightarrow> Selector list" where
  "NewSelector s = NewSelector_loop (Split (CHR '','') (commaRE_ReplaceAllString s)) []"

fun NewSelectors :: "string list \<Rightarrow> Selector list" where
  "NewSelectors [] = []"
| "NewSelectors (s # ss) = NewSelector s @ NewSelectors ss"

section \<open>URLs: the part of Go's net/url the code calls\<close>

datatype error = Canceled | Err string

text \<open>
  \<open>url.URL\<close>. The user information and the fields \<open>RawPath\<close> and \<open>RawFragment\<close>, which
  only record a non-default percent-encoding, are left out: the model of \<open>url.Parse\<close> and
  \<open>String\<close> below is the library's on URLs without user information whose host, path and
  fragment hold no percent-escape and no byte that \<open>String\<close> would escape.
\<close>

record url =
  Scheme :: string
  Opaque :: string
  Host :: string
  Path :: string
  ForceQuery :: bool
  RawQuery :: string
  Fragment :: string
  OmitHost :: bool

definition empty_url :: url where
  "empty_url = \<lparr>Scheme = [], Opaque = [], Host = [], Path = [], ForceQuery = False,
                 RawQuery = [], Fragment = [], OmitHost = False\<rparr>"

definition is_alpha :: "char \<Rightarrow> bool" where
  "is_alpha c = ((97 \<le> (of_char c :: nat) \<and> (of_char c :: nat) \<le> 122)
               \<or> (65 \<le> (of_char c :: nat) \<and> (of_char c :: nat) \<le> 90))"

definition is_digit :: "char \<Rightarrow> bool" where
  "is_digit c = (48 \<le> (of_char c :: nat) \<and> (of_char c :: nat) \<le> 57)"

definition to_lower :: "char \<Rightarrow> char" where
  "to_lower c = (if 65 \<le> (of_char c :: nat) \<and> (of_char c :: nat) \<le> 90
                 then char_of ((of_char c :: nat) + 32) else c)"

definition HasPrefix :: "string \<Rightarrow> string \<Rightarrow> bool" where
  "HasPrefix s p = (take (length p) s = p)"

text \<open>\<open>strings.Cut(s, sep)\<close> for a one-byte separator: before, after, found.\<close>

fun Cut :: "char \<Rightarrow> string \<Rightarrow> string \<times> string \<times> bool" where
  "Cut sep [] = ([], [], False)"
| "Cut sep (c # cs) =
     (if c = sep then ([], cs, True)
      else (case Cut sep cs of (b, a, f) \<Rightarrow> (c # b, a, f)))"

text \<open>
  \<open>getScheme\<close>: the loop over the bytes of \<open>rawURL\<close>; \<open>pre\<close> is the part already read
  (\<open>rawURL[:i]\<close>).
\<close>

fun getScheme_loop :: "string \<Rightarrow> string \<Rightarrow> string \<Rightarrow> error + (string \<times> string)" where
  "getScheme_loop rawURL pre [] = Inr ([], rawURL)"
| "getScheme_loop rawURL pre (c # cs) =
     (if is_alpha c then getScheme_loop rawURL (pre @ [c]) cs
      else if is_digit c \<or> c = CHR ''+'' \<or> c = CHR ''-'' \<or> c = CHR ''.'' then
        (if pre = [] then Inr ([], rawURL) else getScheme_loop rawURL (pre @ [c]) cs)
      else if c = CHR '':'' then
        (if pre = [] then Inl (Err ''missing protocol scheme'') else Inr (pre, cs))
      else Inr ([], rawURL))"

definition getScheme :: "string \<Rightarrow> error + (string \<times> string)" where
  "getScheme rawURL = getScheme_loop rawURL [] rawURL"

definition stringContainsCTLByte :: "string \<Rightarrow> bool" where
  "stringContainsCTLByte s = list_ex (\<lambda>c. (of_char c :: nat) < 32 \<or> (of_char c :: nat) = 127) s"

text \<open>
  \<open>parse(rawURL, viaRequest = false)\<close>, the text before the fragment. The host is taken
  from the authority as it stands and the path from the rest as it stands.
\<close>

definition url_parse :: "string \<Rightarrow> error + url" where
  "url_parse rawURL =
     (if stringContainsCTLByte rawURL then Inl (Err ''net/url: invalid control character in URL'')
      else if rawURL = ''*'' then Inr (empty_url\<lparr>Path := ''*''\<rparr>)
      else
        (case getScheme rawURL of
           Inl e \<Rightarrow> Inl e
         | Inr (scheme, rest0) \<Rightarrow>
             (let u0 = empty_url\<lparr>Scheme := map to_lower scheme\<rparr>;
                  force = (rest0 \<noteq> [] \<and> last rest0 = CHR ''?'' \<and> count_list rest0 (CHR ''?'') = 1);
                  rest = (if force then butlast rest0 else fst (Cut (CHR ''?'') rest0));
                  u1 = (if force then u0\<lparr>ForceQuery := True\<rparr>
                        else u0\<lparr>RawQuery := fst (snd (Cut (CHR ''?'') rest0))\<rparr>)
              in
              if \<not> HasPrefix rest ''/'' \<and> Scheme u1 \<noteq> [] then Inr (u1\<lparr>Opaque := rest\<rparr>)
              else if \<not> HasPrefix rest ''/'' \<and> CHR '':'' \<in> set (fst (Cut (CHR ''/'') rest)) then
                Inl (Err ''first path segment in URL cannot contain colon'')
              else if (Scheme u1 \<noteq> [] \<or> \<not> HasPrefix rest ''///'') \<and> HasPrefix rest ''//'' then
                (let authority0 = drop 2 rest;
                     authority = takeWhile (\<lambda>c. c \<noteq> CHR ''/'') authority0;
                     rest' = dropWhile (\<lambda>c. c \<noteq> CHR ''/'') authority0
                 in Inr (u1\<lparr>Host := authority, Path := rest'\<rparr>))
              else if Scheme u1 \<noteq> [] \<and> HasPrefix rest ''/'' then
                Inr (u1\<lparr>OmitHost := True, Path := rest\<rparr>)
              else Inr (u1\<lparr>Path := rest\<rparr>))))"

text \<open>\<open>url.Parse\<close>: cut off the fragment, parse the rest, set the fragment.\<close>

definition url_Parse :: "string \<Rightarrow> error + url" where
  "url_Parse rawURL =
     (case Cut (CHR ''#'') rawURL of
        (u, frag, _) \<Rightarrow>
          (case url_parse u of
             Inl e \<Rightarrow> Inl e
           | Inr url \<Rightarrow> if frag = [] then Inr url else Inr (url\<lparr>Fragment := frag\<rparr>)))"

text \<open>\<open>(*URL).String\<close>, in the order the library writes the parts.\<close>

definition url_String :: "url \<Rightarrow> string" where
  "url_String u =
     (let b0 = (if Scheme u \<noteq> [] then Scheme u @ '':'' else []);
          b1 =
            (if Opaque u \<noteq> [] then b0 @ Opaque u
             else
               (let b2 =
                      (if Scheme u \<noteq> [] \<or> Host u \<noteq> [] then
                         (if OmitHost u \<and> Host u = [] then b0
                          else b0 @ (if Host u \<noteq> [] \<or> Path u \<noteq> [] then ''//'' else []) @ Host u)
                       else b0);
                    b3 = (if Path u \<noteq> [] \<and> hd (Path u) \<noteq> CHR ''/'' \<and> Host u \<noteq> [] then b2 @ ''/''
                          else b2);
                    b4 = (if b3 = [] \<and> CHR '':'' \<in> set (fst (Cut (CHR ''/'') (Path u))) then ''./''
                          else b3)
                in b4 @ Path u));
          b5 = (if ForceQuery u \<or> RawQuery u \<noteq> [] then b1 @ ''?'' @ RawQuery u else b1)
      in if Fragment u \<noteq> [] then b5 @ ''#'' @ Fragment u else b5)"

section \<open>URL resolver (HREF)\<close>

text \<open>\<open>absURLRE = ^https?:\<close>: the text starts with \<open>http:\<close> or with \<open>https:\<close>.\<close>

definition absURLRE_MatchString :: "string \<Rightarrow> bool" where
  "absURLRE_MatchString s = (HasPrefix s ''http:'' \<or> HasPrefix s ''https:'')"

definition HREF :: "url \<Rightarrow> string \<Rightarrow> error + url" where
  "HREF page href =
     (if length href = 0 then Inr page
      else if absURLRE_MatchString href \<or> HasPrefix href ''//'' then
        (case url_Parse href of
           Inl err \<Rightarrow> Inl err
         | Inr uri \<Rightarrow> if Scheme uri = [] then Inr (uri\<lparr>Scheme := Scheme page\<rparr>) else Inr uri)
      else if hd href = CHR ''/'' then
        url_Parse (url_String (page\<lparr>Path := [], RawQuery := []\<rparr>) @ href)
      else url_Parse (url_String (page\<lparr>RawQuery := []\<rparr>) @ ''/'' @ href))"

text \<open>
  The template function \<open>href\<close> of the command: both URLs as text. A base that does not
  parse is replaced, a reference that does not resolve gives a fixed URL.
\<close>

definition tpl_href :: "string \<Rightarrow> string \<Rightarrow> string" where
  "tpl_href base href =
     (let u = (case url_Parse base of
                 Inr u \<Rightarrow> u
               | Inl _ \<Rightarrow> (case url_Parse ''https://invalid-base.url'' of
                             Inr u \<Rightarrow> u | Inl _ \<Rightarrow> empty_url))
      in case HREF u href of
           Inl _ \<Rightarrow> ''https://invalid-href.url''
         | Inr uri \<Rightarrow> url_String uri)"


section \<open>Selector parsing: the three stated results\<close>

text \<open>
  C7. Parsing \<open>div>a[href]\<close> gives the one clause with query \<open>div>a\<close> and attribute
  \<open>href\<close>; parsing \<open>a, , b\<close> gives the two clauses with queries \<open>a\<close> and \<open>b\<close> and no
  attribute; parsing \<open>a[href=^x][href]\<close> gives the one clause with query \<open>a[href=^x]\<close> and
  attribute \<open>href\<close>: only the last bracket group is the attribute selector.
\<close>

theorem NewSelector_examples:
  "NewSelector ''div>a[href]'' = [\<lparr>Query = ''div>a'', Attr = ''href''\<rparr>]
   \<and> NewSelector ''a, , b'' = [\<lparr>Query = ''a'', Attr = ''''\<rparr>, \<lparr>Query = ''b'', Attr = ''''\<rparr>]
   \<and> NewSelector ''a[href=^x][href]'' = [\<lparr>Query = ''a[href=^x]'', Attr = ''href''\<rparr>]"
  by code_simp

section \<open>URL resolver: the stated equations\<close>

text \<open>
  C5, as stated, at its third equation: resolving \<open>z\<close> against \<open>https://a.com/x/y\<close> does
  not give \<open>https://a.com/x/z\<close>.
\<close>

theorem HREF_relative_counterexample:
  "tpl_href ''https://a.com/x/y'' ''z'' \<noteq> ''https://a.com/x/z''"
  by code_simp

text \<open>
  C5, amended. An empty reference gives the base unchanged, for every base;
  \<open>/z\<close> against \<open>https://a.com/x/y\<close> gives \<open>https://a.com/z\<close>; \<open>z\<close> against
  \<open>https://a.com/x/y\<close> gives \<open>https://a.com/x/y/z\<close> (the reference is appended to the
  whole path of the base after a slash); \<open>//b.com/p\<close> against \<open>https://a.com\<close> gives
  \<open>https://b.com/p\<close>.
\<close>

theorem HREF_equations:
  "(\<forall>page. HREF page [] = Inr page)
   \<and> tpl_href ''https://a.com/x/y'' ''/z'' = ''https://a.com/z''
   \<and> tpl_href ''https://a.com/x/y'' ''z'' = ''https://a.com/x/y/z''
   \<and> tpl_href ''https://a.com'' ''//b.com/p'' = ''https://b.com/p''"
proof -
  have e: "\<forall>page. HREF page [] = Inr page"
    by (simp add: HREF_def)
  have a: "tpl_href ''https://a.com/x/y'' ''/z'' = ''https://a.com/z''"
    by code_simp
  have r: "tpl_href ''https://a.com/x/y'' ''z'' = ''https://a.com/x/y/z''"
    by code_simp
  have p: "tpl_href ''https://a.com'' ''//b.com/p'' = ''https://b.com/p''"
    by code_simp
  from e a r p show ?thesis by blast
qed

text \<open>
  C6, as stated, at the scheme prefix \<open>ftp:\<close>: the reference \<open>ftp://b.com/p\<close> is not parsed
  as its own URL but appended to the base \<open>https://a.com/x/y\<close>.
\<close>

theorem HREF_scheme_counterexample:
  "HREF \<lparr>Scheme = ''https'', Opaque = [], Host = ''a.com'', Path = ''/x/y'', ForceQuery = False,
          RawQuery = [], Fragment = [], OmitHost = False\<rparr> ''ftp://b.com/p''
     = url_Parse ''https://a.com/x/y/ftp://b.com/p''
   \<and> url_Parse ''https://a.com/x/y/ftp://b.com/p'' \<noteq> url_Parse ''ftp://b.com/p''"
  by code_simp

text \<open>
  C6, amended. For every base URL and every reference that begins with \<open>http:\<close>, with
  \<open>https:\<close> (in lower case) or with \<open>//\<close>, the resolver parses the reference as its own
  URL: a parse error is returned as it is, a result without scheme takes the scheme of the
  base, and any other result is returned unchanged.
\<close>

theorem HREF_absolute:
  assumes "take 5 href = ''http:'' \<or> take 6 href = ''https:'' \<or> take 2 href = ''//''"
  shows "HREF page href =
           (case url_Parse href of
              Inl err \<Rightarrow> Inl err
            | Inr uri \<Rightarrow> Inr (if Scheme uri = [] then uri\<lparr>Scheme := Scheme page\<rparr> else uri))"
proof -
  from assms have ne: "length href \<noteq> 0" by auto
  from assms have m: "absURLRE_MatchString href \<or> HasPrefix href ''//''"
    by (simp add: absURLRE_MatchString_def HasPrefix_def eval_nat_numeral)
  show ?thesis
    unfolding HREF_def using ne m by (simp split: sum.splits)
qed

theorem HREF_absolute_witness:
  "take 2 ''//b.com/p'' = ''//''
   \<and> HREF \<lparr>Scheme = ''https'', Opaque = [], Host = ''a.com'', Path = [], ForceQuery = False,
            RawQuery = [], Fragment = [], OmitHost = False\<rparr> ''//b.com/p''
       = Inr \<lparr>Scheme = ''https'', Opaque = [], Host = ''b.com'', Path = ''/p'',
              ForceQuery = False, RawQuery = [], Fragment = [], OmitHost = False\<rparr>"
proof -
  have h: "take 5 ''//b.com/p'' = ''http:'' \<or> take 6 ''//b.com/p'' = ''https:''
           \<or> take 2 ''//b.com/p'' = ''//''"
    by simp
  have v: "url_Parse ''//b.com/p''
           = Inr \<lparr>Scheme = [], Opaque = [], Host = ''b.com'', Path = ''/p'',
                  ForceQuery = False, RawQuery = [], Fragment = [], OmitHost = False\<rparr>"
    by code_simp
  show ?thesis
    using HREF_absolute [OF h, of "\<lparr>Scheme = ''https'', Opaque = [], Host = ''a.com'', Path = [],
      ForceQuery = False, RawQuery = [], Fragment = [], OmitHost = False\<rparr>"]
    by (simp add: v)
qed

section \<open>Pages and the document extractor\<close>

text \<open>
  \<open>PageInfo\<close>: the pointer \<open>Ref\<close> to the page a task was found on is the value it points
  to, since a page's \<open>PageInfo\<close> is not written after \<open>page\<close> has returned.
\<close>

datatype PageInfo = PageInfo (URL: url) (Ref: "PageInfo option") (Title: string) (Index: int)

text \<open>\<open>Page\<close>; the embedded \<open>PageInfo\<close> is the field \<open>page_info\<close>.\<close>

record Page =
  page_info :: PageInfo
  Links :: "url list"
  Downloads :: "url list"
  Prints :: "string list list"

definition newPage :: "PageInfo \<Rightarrow> Page" where
  "newPage p = \<lparr>page_info = p, Links = [], Downloads = [], Prints = []\<rparr>"

text \<open>
  The HTML parser and the CSS engine are outside the repository. A parsed document is what
  \<open>doc.Find(query)\<close> returns for each query: the matched elements in document order, each
  with its text and its attributes.
\<close>

record element =
  Text :: string
  Attrs :: "(string \<times> string) list"

type_synonym document = "string \<Rightarrow> element list"

text \<open>
  \<open>multispaceRE = \s+\<close>, \<open>ReplaceAllString(data, " ")\<close>: every maximal run of white space
  becomes one space. The flag of the scanner says whether the byte before belonged to a run.
\<close>

fun multispace_scan :: "bool \<Rightarrow> string \<Rightarrow> string" where
  "multispace_scan in_run [] = []"
| "multispace_scan in_run (c # cs) =
     (if re_space c then
        (if in_run then multispace_scan True cs else CHR 0x20 # multispace_scan True cs)
      else c # multispace_scan False cs)"

definition multispaceRE_ReplaceAllString :: "string \<Rightarrow> string" where
  "multispaceRE_ReplaceAllString s = multispace_scan False s"

text \<open>
  The closure \<open>qry\<close>: for each clause in turn and each of its matches in turn, \<open>add\<close> is
  called with the clause's index and the text, or with the attribute's value when the
  clause names an attribute and the element has it. \<open>qry_each\<close> is the callback of
  \<open>Each\<close> (its zero or one call of \<open>add\<close>), \<open>qry_loop\<close> the sequence of all calls, and
  \<open>qry\<close> runs \<open>add\<close> over them on the state \<open>add\<close> captures.
\<close>

definition qry_each :: "nat \<Rightarrow> Selector \<Rightarrow> element \<Rightarrow> (nat \<times> string) list" where
  "qry_each qix q s =
     (if Attr q = [] then [(qix, Text s)]
      else (case map_of (Attrs s) (Attr q) of Some val \<Rightarrow> [(qix, val)] | None \<Rightarrow> []))"

fun qry_loop :: "document \<Rightarrow> nat \<Rightarrow> Selector list \<Rightarrow> (nat \<times> string) list" where
  "qry_loop doc qix [] = []"
| "qry_loop doc qix (q # qs) =
     concat (map (qry_each qix q) (doc (Query q))) @ qry_loop doc (Suc qix) qs"

definition qry :: "document \<Rightarrow> Selector list \<Rightarrow> (nat \<times> string \<Rightarrow> 's \<Rightarrow> 's) \<Rightarrow> 's \<Rightarrow> 's" where
  "qry doc q add st = fold add (qry_loop doc 0 q) st"

definition addLink :: "url \<Rightarrow> nat \<times> string \<Rightarrow> url list \<Rightarrow> url list" where
  "addLink base call list =
     (case HREF base (snd call) of Inl err \<Rightarrow> list | Inr href \<Rightarrow> list @ [href])"

definition addTitle :: "nat \<times> string \<Rightarrow> string \<Rightarrow> string" where
  "addTitle call title =
     (if title = [] then TrimSpace (multispaceRE_ReplaceAllString (snd call)) else title)"

text \<open>
  The callback of the print clauses on \<open>entries\<close> (a Go map, zero where no key is set) and
  \<open>p.Prints\<close>; \<open>n\<close> is \<open>len(s.Prints)\<close>. \<open>None\<close> is the panic of an index out of range.
\<close>

definition addPrint ::
  "nat \<Rightarrow> nat \<times> string \<Rightarrow> ((nat \<Rightarrow> nat) \<times> string list list) option
   \<Rightarrow> ((nat \<Rightarrow> nat) \<times> string list list) option" where
  "addPrint n call st =
     (case st of
        None \<Rightarrow> None
      | Some (entries, prints) \<Rightarrow>
          (let qix = fst call;
               entries' = entries(qix := entries qix + 1);
               prints' = (if length prints < entries' qix then prints @ [replicate n []]
                          else prints);
               row = entries' qix - 1
           in if entries' qix - 1 < length prints' \<and> qix < length (prints' ! row)
              then Some (entries', prints'[row := (prints' ! row)[qix := snd call]])
              else None))"

definition page_prints :: "document \<Rightarrow> Selector list \<Rightarrow> string list list option" where
  "page_prints doc prints =
     map_option snd (qry doc prints (addPrint (length prints)) (Some (\<lambda>_. 0, [])))"

text \<open>The part of \<open>page\<close> after the document has been parsed.\<close>

definition page_extract :: "document \<Rightarrow> PageInfo \<Rightarrow> Selectors \<Rightarrow> Page option" where
  "page_extract doc pi s =
     (let links = qry doc (sel_Links s) (addLink (URL pi)) [];
          downloads = qry doc (sel_Downloads s) (addLink (URL pi)) [];
          title = qry doc (sel_Titles s) addTitle (Title pi)
      in case page_prints doc (sel_Prints s) of
           None \<Rightarrow> None
         | Some prints \<Rightarrow>
             Some \<lparr>page_info = PageInfo (URL pi) (Ref pi) title (Index pi),
                   Links = links, Downloads = downloads, Prints = prints\<rparr>)"

text \<open>
  What clause \<open>q\<close> produces on a document: one value for each match that has a value, in
  the order of the matches.
\<close>

definition matches :: "document \<Rightarrow> Selector \<Rightarrow> string list" where
  "matches doc q = map snd (concat (map (qry_each 0 q) (doc (Query q))))"

section \<open>The print table\<close>

text \<open>The values a sequence of calls of \<open>add\<close> carries for clause \<open>i\<close>, in order.\<close>

definition column :: "(nat \<times> string) list \<Rightarrow> nat \<Rightarrow> string list" where
  "column calls i = map snd (filter (\<lambda>c. fst c = i) calls)"

text \<open>
  What holds of \<open>entries\<close> and \<open>p.Prints\<close> after the calls \<open>calls\<close>: every counter is the
  number of values of its clause, every row has \<open>n\<close> cells, no counter exceeds the number
  of rows and one reaches it, and cell \<open>(k, i)\<close> holds value \<open>k\<close> of clause \<open>i\<close> or is empty.
\<close>

definition prints_inv :: "nat \<Rightarrow> (nat \<times> string) list \<Rightarrow> (nat \<Rightarrow> nat) \<times> string list list \<Rightarrow> bool" where
  "prints_inv n calls st =
     (case st of (entries, prints) \<Rightarrow>
        (\<forall>i. entries i = length (column calls i))
      \<and> (\<forall>row \<in> set prints. length row = n)
      \<and> (\<forall>i. entries i \<le> length prints)
      \<and> (prints \<noteq> [] \<longrightarrow> (\<exists>i<n. entries i = length prints))
      \<and> (\<forall>k<length prints. \<forall>i<n.
            prints ! k ! i = (if k < entries i then column calls i ! k else [])))"

lemma column_snoc:
  "column (calls @ [(q, d)]) i = (if i = q then column calls i @ [d] else column calls i)"
  by (simp add: column_def)

lemma addPrint_step:
  assumes inv: "prints_inv n calls (e, p)" and q: "q < n"
  shows "\<exists>st'. addPrint n (q, d) (Some (e, p)) = Some st' \<and> prints_inv n (calls @ [(q, d)]) st'"
proof -
  from inv have e_len: "\<And>i. e i = length (column calls i)"
    and rows: "\<And>row. row \<in> set p \<Longrightarrow> length row = n"
    and le: "\<And>i. e i \<le> length p"
    and full: "p \<noteq> [] \<Longrightarrow> \<exists>i<n. e i = length p"
    and cell: "\<And>k i. k < length p \<Longrightarrow> i < n \<Longrightarrow>
                 p ! k ! i = (if k < e i then column calls i ! k else [])"
    by (auto simp: prints_inv_def)
  define p' where "p' = (if length p < e q + 1 then p @ [replicate n []] else p)"
  define e' where "e' = e(q := e q + 1)"
  have r_lt: "e q < length p'"
    using le [of q] by (auto simp: p'_def)
  have rows': "\<And>row. row \<in> set p' \<Longrightarrow> length row = n"
    using rows by (auto simp: p'_def split: if_splits)
  have row_len: "length (p' ! e q) = n"
    using rows' r_lt by simp
  define p'' where "p'' = p'[e q := (p' ! e q)[q := d]]"
  have res: "addPrint n (q, d) (Some (e, p)) = Some (e', p'')"
  proof (cases "length p < e q + 1")
    case True
    then have pp: "p' = p @ [replicate n []]" by (simp add: p'_def)
    show ?thesis
      using r_lt row_len q True unfolding pp p''_def e'_def
      by (simp add: addPrint_def Let_def pp)
  next
    case False
    then have pp: "p' = p" by (simp add: p'_def)
    show ?thesis
      using r_lt row_len q False unfolding pp p''_def e'_def
      by (simp add: addPrint_def Let_def pp)
  qed
  have len'': "length p'' = length p'" by (simp add: p''_def)
  have i1: "\<forall>i. e' i = length (column (calls @ [(q, d)]) i)"
    by (simp add: e'_def column_snoc e_len)
  have i2: "\<forall>row \<in> set p''. length row = n"
  proof
    fix row assume "row \<in> set p''"
    then have "row \<in> insert ((p' ! e q)[q := d]) (set p')"
      using set_update_subset_insert p''_def by fastforce
    then show "length row = n" using rows' row_len by auto
  qed
  have len_p': "length p \<le> length p'" by (simp add: p'_def)
  have i3: "\<forall>i. e' i \<le> length p''"
  proof
    fix i
    show "e' i \<le> length p''"
      using le [of i] r_lt len_p' by (cases "i = q") (simp_all add: e'_def len'')
  qed
  have i4: "p'' \<noteq> [] \<longrightarrow> (\<exists>i<n. e' i = length p'')"
  proof (cases "length p < e q + 1")
    case True
    then have "e' q = length p''" using le [of q] by (simp add: e'_def len'' p'_def)
    with q show ?thesis by blast
  next
    case False
    then have pp: "p' = p" and ne: "p \<noteq> []" by (auto simp: p'_def)
    from full [OF ne] obtain i where i: "i < n" "e i = length p" by blast
    with False have "i \<noteq> q" by auto
    with i have "e' i = length p''" by (simp add: e'_def len'' pp)
    with i show ?thesis by blast
  qed
  have i5: "\<forall>k<length p''. \<forall>i<n.
      p'' ! k ! i = (if k < e' i then column (calls @ [(q, d)]) i ! k else [])"
  proof (intro allI impI)
    fix k i assume k: "k < length p''" and i: "i < n"
    have old: "k < length p \<Longrightarrow> p' ! k ! i = (if k < e i then column calls i ! k else [])"
      using cell [of k i] i by (simp add: p'_def nth_append)
    have new: "\<not> k < length p \<Longrightarrow> p' ! k ! i = [] \<and> k = e q \<and> length p = e q"
      using k i le [of q] by (auto simp: len'' p'_def nth_append split: if_splits)
    show "p'' ! k ! i = (if k < e' i then column (calls @ [(q, d)]) i ! k else [])"
    proof (cases "k = e q")
      case True
      show ?thesis
      proof (cases "i = q")
        case True
        with \<open>k = e q\<close> show ?thesis
          using r_lt row_len q
          by (simp add: p''_def e'_def column_snoc e_len nth_append)
      next
        case False
        have "p'' ! k ! i = p' ! k ! i"
          using \<open>k = e q\<close> r_lt False by (simp add: p''_def)
        moreover have "p' ! k ! i = (if k < e i then column calls i ! k else [])"
        proof (cases "k < length p")
          case True then show ?thesis using old by simp
        next
          case False
          with new have "p' ! k ! i = []" and "length p = k" using \<open>k = e q\<close> by auto
          moreover have "\<not> k < e i" using le [of i] \<open>length p = k\<close> by simp
          ultimately show ?thesis by simp
        qed
        ultimately show ?thesis using False by (simp add: e'_def column_snoc)
      qed
    next
      case False
      then have kp: "k < length p" using new by blast
      have "p'' ! k ! i = p' ! k ! i" using False by (simp add: p''_def)
      with old [OF kp] show ?thesis
        using False le [of q] e_len [of q] by (auto simp: e'_def column_snoc nth_append)
    qed
  qed
  from i1 i2 i3 i4 i5 have "prints_inv n (calls @ [(q, d)]) (e', p'')"
    by (simp add: prints_inv_def)
  with res show ?thesis by blast
qed

lemma addPrint_fold:
  assumes "\<forall>c \<in> set calls. fst c < n"
  shows "\<exists>st. fold (addPrint n) calls (Some (\<lambda>_. 0, [])) = Some st \<and> prints_inv n calls st"
  using assms
proof (induction calls rule: rev_induct)
  case Nil
  show ?case by (simp add: prints_inv_def column_def)
next
  case (snoc c calls)
  then obtain st where st: "fold (addPrint n) calls (Some (\<lambda>_. 0, [])) = Some st"
    and inv: "prints_inv n calls st" by auto
  obtain e p where ep: "st = (e, p)" by (cases st)
  obtain q d where c: "c = (q, d)" by (cases c)
  from snoc.prems c have q: "q < n" by simp
  from addPrint_step [OF inv [unfolded ep] q, of d] st ep c show ?case by simp
qed


lemma qry_each_index:
  "qry_each qix q s = map (\<lambda>c. (qix, snd c)) (qry_each 0 q s)"
  by (simp add: qry_each_def split: option.splits)

lemma column_clause:
  "column (concat (map (qry_each j q) els)) i = (if i = j then map snd (concat (map (qry_each 0 q) els)) else [])"
proof (induction els)
  case Nil
  show ?case by (simp add: column_def)
next
  case (Cons s els)
  have "column (qry_each j q s) i = (if i = j then map snd (qry_each 0 q s) else [])"
    by (simp add: qry_each_def column_def split: option.splits)
  with Cons show ?case by (simp add: column_def)
qed

lemma qry_loop_index:
  "c \<in> set (qry_loop doc j qs) \<Longrightarrow> j \<le> fst c \<and> fst c < j + length qs"
proof (induction qs arbitrary: j)
  case Nil
  then show ?case by simp
next
  case (Cons q qs)
  from Cons.prems consider
      (here) s where "c \<in> set (qry_each j q s)"
    | (later) "c \<in> set (qry_loop doc (Suc j) qs)"
    by auto
  then show ?case
  proof cases
    case here
    then have "fst c = j" by (auto simp: qry_each_def split: if_splits option.splits)
    then show ?thesis by simp
  next
    case later
    from Cons.IH [OF later] show ?thesis by simp
  qed
qed

lemma column_none:
  "i < j \<Longrightarrow> column (qry_loop doc j qs) i = []"
  using qry_loop_index [of _ doc j qs] by (fastforce simp: column_def filter_empty_conv)

lemma column_append: "column (xs @ ys) i = column xs i @ column ys i"
  by (simp add: column_def)

lemma column_qry_loop:
  "j \<le> i \<Longrightarrow> i < j + length qs \<Longrightarrow> column (qry_loop doc j qs) i = matches doc (qs ! (i - j))"
proof (induction qs arbitrary: j)
  case Nil
  then show ?case by simp
next
  case (Cons q qs)
  show ?case
  proof (cases "i = j")
    case True
    then show ?thesis
      by (simp add: column_append column_clause column_none matches_def)
  next
    case False
    with Cons.prems have "Suc j \<le> i" "i < Suc j + length qs" by simp_all
    from Cons.IH [OF this] False Cons.prems show ?thesis
      by (simp add: column_append column_clause Suc_diff_Suc [symmetric] nth_Cons')
  qed
qed

lemma page_prints_cells:
  "\<exists>table. page_prints doc prints = Some table
     \<and> (\<forall>row \<in> set table. length row = length prints)
     \<and> (\<forall>i<length prints. length (matches doc (prints ! i)) \<le> length table)
     \<and> (table \<noteq> [] \<longrightarrow> (\<exists>i<length prints. length (matches doc (prints ! i)) = length table))
     \<and> (\<forall>i<length prints. \<forall>k<length table.
           table ! k ! i = (if k < length (matches doc (prints ! i))
                            then matches doc (prints ! i) ! k else []))"
proof -
  let ?calls = "qry_loop doc 0 prints"
  have "\<forall>c \<in> set ?calls. fst c < length prints"
    using qry_loop_index [of _ doc 0 prints] by auto
  from addPrint_fold [OF this] obtain e p
    where f: "fold (addPrint (length prints)) ?calls (Some (\<lambda>_. 0, [])) = Some (e, p)"
      and inv: "prints_inv (length prints) ?calls (e, p)"
    by auto
  have col: "\<And>i. i < length prints \<Longrightarrow> column ?calls i = matches doc (prints ! i)"
    using column_qry_loop [of 0 _ prints doc] by simp
  have pp: "page_prints doc prints = Some p"
    by (simp add: page_prints_def qry_def f)
  from inv have e_len: "\<And>i. e i = length (column ?calls i)"
    and rows: "\<forall>row \<in> set p. length row = length prints"
    and le: "\<And>i. e i \<le> length p"
    and full: "p \<noteq> [] \<longrightarrow> (\<exists>i<length prints. e i = length p)"
    and cell: "\<And>k i. k < length p \<Longrightarrow> i < length prints \<Longrightarrow>
                 p ! k ! i = (if k < e i then column ?calls i ! k else [])"
    by (auto simp: prints_inv_def)
  have c2: "\<forall>i<length prints. length (matches doc (prints ! i)) \<le> length p"
    using le e_len col by (metis)
  have c3: "p \<noteq> [] \<longrightarrow> (\<exists>i<length prints. length (matches doc (prints ! i)) = length p)"
    using full e_len col by (metis)
  have c4: "\<forall>i<length prints. \<forall>k<length p.
           p ! k ! i = (if k < length (matches doc (prints ! i))
                            then matches doc (prints ! i) ! k else [])"
    using cell e_len col by simp
  from pp rows c2 c3 c4 show ?thesis by blast
qed






section \<open>The crawl orchestrator (web/web.go)\<close>

subsection \<open>Configuration, environment and events\<close>

record Config =
  Concurrency :: int

definition New :: "Config \<Rightarrow> Config" where
  "New c = (if Concurrency c \<le> 0 then c\<lparr>Concurrency := 8\<rparr> else c)"

text \<open>
  \<open>RecursiveConfig\<close>. A function field that may be \<open>nil\<close> is an option. The progress sink
  \<open>Progress\<close> is called whenever the code calls it; its calls are events of the trace.
\<close>

record RecursiveConfig =
  Selectors :: Selectors
  URLs :: "string list"
  Download :: "(PageInfo \<Rightarrow> bool) option"
  DownloadCallback :: "(PageInfo \<Rightarrow> string \<Rightarrow> error option) option"
  PrintCallback :: "(PageInfo \<Rightarrow> string list list \<Rightarrow> unit) option"
  ProgressInterval :: int
  ReverseLinks :: bool
  ReverseDownloads :: bool

text \<open>
  The world outside: what the HTTP client answers to a GET of a URL with a referer, and
  what the HTML parser makes of a body.
\<close>

record env =
  Do :: "string \<Rightarrow> string option \<Rightarrow> error + string"
  NewDocumentFromReader :: "string \<Rightarrow> error + document"

text \<open>
  What a run does to the outside, in order: the GET requests it issues, the calls of the
  four callbacks, and the pages the extractor returns.
\<close>

datatype event =
    Request string "string option"
  | Extracted Page
  | Predicate PageInfo
  | Callback PageInfo
  | Print PageInfo "string list list"
  | Progress "error option" "64 word" "64 word"

record pageTask =
  task_info :: PageInfo
  is_Download :: bool

subsection \<open>Fetching (get, page, download)\<close>

text \<open>
  \<open>get\<close>: one GET for \<open>p.URL.String()\<close>, with the referer header when \<open>p.Ref\<close> is set. A
  context that is done makes the client return the context's error. The request is
  recorded whether or not it succeeds.
\<close>

definition referer :: "PageInfo \<Rightarrow> string option" where
  "referer p = map_option (\<lambda>r. url_String (URL r)) (Ref p)"

definition get :: "env \<Rightarrow> error option \<Rightarrow> PageInfo \<Rightarrow> event list \<Rightarrow> (error + string) \<times> event list" where
  "get e ctx p tr =
     (let res = (case ctx of
                   Some err \<Rightarrow> Inl err
                 | None \<Rightarrow> Do e (url_String (URL p)) (referer p))
      in (res, tr @ [Request (url_String (URL p)) (referer p)]))"

text \<open>\<open>page\<close>; \<open>None\<close> stands for a panic in the extraction.\<close>

definition page ::
  "env \<Rightarrow> error option \<Rightarrow> PageInfo \<Rightarrow> Selectors \<Rightarrow> event list \<Rightarrow> (error + Page) option \<times> event list" where
  "page e ctx pi s tr =
     (case get e ctx pi tr of
        (Inl err, tr') \<Rightarrow> (Some (Inl err), tr')
      | (Inr r, tr') \<Rightarrow>
          (case NewDocumentFromReader e r of
             Inl err \<Rightarrow> (Some (Inl err), tr')
           | Inr doc \<Rightarrow>
               (case page_extract doc pi s of
                  None \<Rightarrow> (None, tr')
                | Some p \<Rightarrow> (Some (Inr p), tr' @ [Extracted p]))))"

definition download ::
  "env \<Rightarrow> error option \<Rightarrow> PageInfo \<Rightarrow> (PageInfo \<Rightarrow> string \<Rightarrow> error option) \<Rightarrow> event list
   \<Rightarrow> error option \<times> event list" where
  "download e ctx p cb tr =
     (case get e ctx p tr of
        (Inl err, tr') \<Rightarrow> (Some err, tr')
      | (Inr r, tr') \<Rightarrow> (cb p r, tr' @ [Callback p]))"

subsection \<open>State of a run\<close>

text \<open>
  Where a worker stands in its loop; the numbers are lines of web.go. Between two of these
  points a worker touches shared state at most once. In the call of the sink at line 118
  the operands \<open>dlCount\<close> and \<open>dlTotal\<close> are two plain reads, and Go does not fix the
  order of the reads of variables among the operands of a call: a worker at \<open>W_emit\<close> has
  read \<open>dlCount\<close> and not yet \<open>dlTotal\<close>, a worker at \<open>W_emit_total\<close> has read \<open>dlTotal\<close>
  and not yet \<open>dlCount\<close>.
\<close>

datatype wpc =
    W_recv
  | W_gerr pageTask
  | W_ctx pageTask
  | W_count pageTask
  | W_rlock pageTask
  | W_lock pageTask
  | W_work pageTask
  | W_download pageTask
  | W_addtasks pageTask Page
  | W_addtotal pageTask Page
  | W_print pageTask Page
  | W_spawn pageTask Page
  | W_progress "error option"
  | W_emit "error option" "64 word"
  | W_emit_total "error option" "64 word"
  | W_doDone
  | W_break
  | W_exit

text \<open>
  Where \<open>Recurse\<close> itself stands: sending the seeds (218), waiting in the \<open>select\<close> loop
  with its count of live workers (223), in the deferred \<open>progress(nil, true)\<close> with the
  value it is about to return (before the reads of line 118, or between them as for a
  worker), and returned.
\<close>

datatype mpc =
    M_seed "pageTask list"
  | M_wait int
  | M_defer "error option"
  | M_emit "error option" "64 word"
  | M_emit_total "error option" "64 word"
  | M_returned "error option"

text \<open>
  The shared variables of \<open>Recurse\<close> (the map \<open>done\<close> is \<open>done_map\<close>), the clock, the
  error of the context, the control points of \<open>Recurse\<close> and of the workers, the texts
  still to be sent by each goroutine started at line 180, and the trace.
\<close>

record state =
  ch :: "pageTask list"
  chDone :: nat
  done_map :: "string set"
  tasks :: "64 word"
  dlCount :: "64 word"
  dlTotal :: "64 word"
  gerr :: "error option"
  lastProgress :: "int option"
  now :: int
  ctxErr :: "error option"
  main :: mpc
  workers :: "wpc list"
  senders :: "pageTask list list"
  trace :: "event list"

subsection \<open>The closure progress\<close>

text \<open>
  \<open>errors.As(err, &context.Canceled)\<close>. The target has type \<open>*error\<close>, and \<open>errors.As\<close>
  reports the first error of the chain that is assignable to the target's element type.
  Every error is assignable to the interface \<open>error\<close>, so the call is true for every
  \<open>err\<close> that is not \<open>nil\<close> (and false for \<open>nil\<close>).
\<close>

definition errors_As_Canceled :: "error option \<Rightarrow> bool" where
  "errors_As_Canceled err = (err \<noteq> None)"

definition maxDuration :: int where
  "maxDuration = 2 ^ 63 - 1"

text \<open>
  \<open>time.Since(lastProgress)\<close>, in nanoseconds: the zero time lies further back than a
  \<open>Duration\<close> can hold, and \<open>Sub\<close> then gives the largest one.
\<close>

definition since_lastProgress :: "state \<Rightarrow> int" where
  "since_lastProgress s =
     (case lastProgress s of None \<Rightarrow> maxDuration | Some t \<Rightarrow> min maxDuration (now s - t))"

text \<open>Lines 114 to 117: whether \<open>progress(err, force)\<close> goes on to call the sink.\<close>

definition progress_calls :: "RecursiveConfig \<Rightarrow> state \<Rightarrow> error option \<Rightarrow> bool \<Rightarrow> bool" where
  "progress_calls c s err force =
     (if errors_As_Canceled err then False
      else (force \<or> err \<noteq> None \<or> since_lastProgress s > ProgressInterval c))"

text \<open>
  Lines 118 and 119, once both operands have been read: the call of the sink with them, and
  the write of \<open>lastProgress\<close>.
\<close>

definition progress_call :: "state \<Rightarrow> error option \<Rightarrow> 64 word \<Rightarrow> 64 word \<Rightarrow> state" where
  "progress_call s err cur tot =
     s\<lparr>trace := trace s @ [Progress err cur tot], lastProgress := Some (now s)\<rparr>"

subsection \<open>The goroutine that sends the children (lines 180 to 209)\<close>

fun send_downloads :: "bool \<Rightarrow> pageTask \<Rightarrow> Page \<Rightarrow> nat \<Rightarrow> url list \<Rightarrow> pageTask list" where
  "send_downloads rv u p i [] = []"
| "send_downloads rv u p i (su # rest) =
     \<lparr>task_info =
        PageInfo su (Some (page_info p)) (Title (task_info u))
          (if rv then int (length (Downloads p)) - int i - 1 else int i),
      is_Download = True\<rparr>
     # send_downloads rv u p (Suc i) rest"

fun send_links :: "bool \<Rightarrow> Page \<Rightarrow> nat \<Rightarrow> url list \<Rightarrow> pageTask list" where
  "send_links rv p i [] = []"
| "send_links rv p i (su # rest) =
     \<lparr>task_info =
        PageInfo su (Some (page_info p)) []
          (if rv then int (length (Links p)) - int i - 1 else int i),
      is_Download = False\<rparr>
     # send_links rv p (Suc i) rest"

definition children :: "RecursiveConfig \<Rightarrow> pageTask \<Rightarrow> Page \<Rightarrow> pageTask list" where
  "children c u p =
     send_downloads (ReverseDownloads c) u p 0 (Downloads p)
     @ send_links (ReverseLinks c) p 0 (Links p)"

subsection \<open>One step of a worker\<close>

definition task_key :: "pageTask \<Rightarrow> string" where
  "task_key u = url_String (URL (task_info u))"

definition nchildren :: "Page \<Rightarrow> nat" where
  "nchildren p = length (Links p) + length (Downloads p)"

text \<open>
  \<open>wstep c e pc s\<close>: the next control point of a worker at \<open>pc\<close> and the shared state
  after its step, or \<open>None\<close> when the worker cannot move (it waits for a task, it has
  returned, or the extraction panics).
\<close>

fun wstep :: "RecursiveConfig \<Rightarrow> env \<Rightarrow> wpc \<Rightarrow> state \<Rightarrow> (wpc \<times> state) option" where
  "wstep c e W_recv s =
     (case ch s of [] \<Rightarrow> None | u # rest \<Rightarrow> Some (W_gerr u, s\<lparr>ch := rest\<rparr>))"
| "wstep c e (W_gerr u) s =
     (if gerr s \<noteq> None then Some (W_break, s) else Some (W_ctx u, s))"
| "wstep c e (W_ctx u) s =
     (case ctxErr s of
        Some err \<Rightarrow> Some (W_break, s\<lparr>gerr := Some err\<rparr>)
      | None \<Rightarrow> Some (W_count u, s))"
| "wstep c e (W_count u) s = Some (W_rlock u, s\<lparr>dlCount := dlCount s + 1\<rparr>)"
| "wstep c e (W_rlock u) s =
     (if task_key u \<in> done_map s then Some (W_doDone, s) else Some (W_lock u, s))"
| "wstep c e (W_lock u) s =
     (if task_key u \<in> done_map s then Some (W_doDone, s)
      else Some (W_work u, s\<lparr>done_map := insert (task_key u) (done_map s)\<rparr>))"
| "wstep c e (W_work u) s =
     (if is_Download u then
        (case Download c of
           None \<Rightarrow> Some (W_doDone, s)
         | Some want \<Rightarrow>
             (case DownloadCallback c of
                None \<Rightarrow> Some (W_doDone, s)
              | Some cb \<Rightarrow>
                  (let s' = s\<lparr>trace := trace s @ [Predicate (task_info u)]\<rparr>
                   in if \<not> want (task_info u) then Some (W_doDone, s')
                      else Some (W_download u, s'))))
      else
        (case page e (ctxErr s) (task_info u) (Selectors c) (trace s) of
           (None, tr) \<Rightarrow> None
         | (Some (Inl err), tr) \<Rightarrow> Some (W_progress (Some err), s\<lparr>trace := tr\<rparr>)
         | (Some (Inr p), tr) \<Rightarrow> Some (W_addtasks u p, s\<lparr>trace := tr\<rparr>)))"
| "wstep c e (W_download u) s =
     (case DownloadCallback c of
        None \<Rightarrow> None
      | Some cb \<Rightarrow>
          (case download e (ctxErr s) (task_info u) cb (trace s) of
             (err, tr) \<Rightarrow> Some (W_progress err, s\<lparr>trace := tr\<rparr>)))"
| "wstep c e (W_addtasks u p) s =
     Some (W_addtotal u p, s\<lparr>tasks := tasks s + word_of_nat (nchildren p)\<rparr>)"
| "wstep c e (W_addtotal u p) s =
     Some (W_print u p, s\<lparr>dlTotal := dlTotal s + word_of_nat (nchildren p)\<rparr>)"
| "wstep c e (W_print u p) s =
     (if PrintCallback c \<noteq> None \<and> length (Prints p) \<noteq> 0
      then Some (W_spawn u p, s\<lparr>trace := trace s @ [Print (page_info p) (Prints p)]\<rparr>)
      else Some (W_spawn u p, s))"
| "wstep c e (W_spawn u p) s =
     Some (W_progress None, s\<lparr>senders := senders s @ [children c u p]\<rparr>)"
| "wstep c e (W_progress err) s =
     (if progress_calls c s err False then Some (W_emit err (dlCount s), s)
      else Some (W_doDone, s))"
| "wstep c e (W_emit err cur) s = Some (W_doDone, progress_call s err cur (dlTotal s))"
| "wstep c e (W_emit_total err tot) s = Some (W_doDone, progress_call s err (dlCount s) tot)"
| "wstep c e W_doDone s = Some (W_recv, s\<lparr>tasks := tasks s + (- 1)\<rparr>)"
| "wstep c e W_break s = Some (W_exit, s\<lparr>chDone := chDone s + 1\<rparr>)"
| "wstep c e W_exit s = None"

text \<open>
  The other order of the reads of line 118: a worker about to call the sink reads
  \<open>dlTotal\<close> first. This is the only step a worker can make in two ways.
\<close>

fun wstep_total :: "RecursiveConfig \<Rightarrow> wpc \<Rightarrow> state \<Rightarrow> (wpc \<times> state) option" where
  "wstep_total c (W_progress err) s =
     (if progress_calls c s err False then Some (W_emit_total err (dlTotal s), s) else None)"
| "wstep_total c pc s = None"

subsection \<open>Steps of a run\<close>

text \<open>
  Who moves: \<open>Recurse\<close> itself (sending a seed, or in its deferred call), \<open>Recurse\<close> taking
  the \<open>chDone\<close> case or the timer case of its \<open>select\<close>, a worker, a sending goroutine, the
  context being cancelled from outside, or time passing. \<open>MainT\<close> and \<open>WorkerT\<close> are
  \<open>Recurse\<close> and a worker reading \<open>dlTotal\<close> before \<open>dlCount\<close> at line 118.
\<close>

datatype action =
    Main
  | MainDone
  | MainTimer
  | MainT
  | Worker nat
  | WorkerT nat
  | Sender nat
  | Cancel
  | Tick nat

definition nworkers :: "Config \<Rightarrow> nat" where
  "nworkers w = (if Concurrency w \<le> 0 then 8 else nat (Concurrency w))"

fun mstep :: "Config \<Rightarrow> RecursiveConfig \<Rightarrow> action \<Rightarrow> mpc \<Rightarrow> state \<Rightarrow> state option" where
  "mstep w c Main (M_seed []) s = Some (s\<lparr>main := M_wait (int (nworkers w))\<rparr>)"
| "mstep w c Main (M_seed (u # us)) s =
     (if length (ch s) < nworkers w then Some (s\<lparr>ch := ch s @ [u], main := M_seed us\<rparr>)
      else None)"
| "mstep w c MainDone (M_wait cnt) s =
     (if chDone s = 0 then None
      else if cnt - 1 = 0 then Some (s\<lparr>chDone := chDone s - 1, main := M_defer (gerr s)\<rparr>)
      else Some (s\<lparr>chDone := chDone s - 1, main := M_wait (cnt - 1)\<rparr>))"
| "mstep w c MainTimer (M_wait cnt) s =
     (if tasks s = 0 then Some (s\<lparr>main := M_defer (gerr s)\<rparr>) else Some s)"
| "mstep w c Main (M_defer r) s =
     (if progress_calls c s None True then Some (s\<lparr>main := M_emit r (dlCount s)\<rparr>)
      else Some (s\<lparr>main := M_returned r\<rparr>))"
| "mstep w c MainT (M_defer r) s =
     (if progress_calls c s None True then Some (s\<lparr>main := M_emit_total r (dlTotal s)\<rparr>)
      else None)"
| "mstep w c Main (M_emit r cur) s =
     Some ((progress_call s None cur (dlTotal s))\<lparr>main := M_returned r\<rparr>)"
| "mstep w c Main (M_emit_total r tot) s =
     Some ((progress_call s None (dlCount s) tot)\<lparr>main := M_returned r\<rparr>)"
| "mstep w c a pc s = None"

definition step :: "Config \<Rightarrow> RecursiveConfig \<Rightarrow> env \<Rightarrow> action \<Rightarrow> state \<Rightarrow> state option" where
  "step w c e a s =
     (case a of
        Worker i \<Rightarrow>
          (if i < length (workers s) then
             (case wstep c e (workers s ! i) s of
                None \<Rightarrow> None
              | Some (pc, s') \<Rightarrow> Some (s'\<lparr>workers := (workers s)[i := pc]\<rparr>))
           else None)
      | WorkerT i \<Rightarrow>
          (if i < length (workers s) then
             (case wstep_total c (workers s ! i) s of
                None \<Rightarrow> None
              | Some (pc, s') \<Rightarrow> Some (s'\<lparr>workers := (workers s)[i := pc]\<rparr>))
           else None)
      | Sender j \<Rightarrow>
          (if j < length (senders s) then
             (case senders s ! j of
                [] \<Rightarrow> None
              | t # ts \<Rightarrow>
                  if length (ch s) < nworkers w
                  then Some (s\<lparr>ch := ch s @ [t], senders := (senders s)[j := ts]\<rparr>)
                  else None)
           else None)
      | Cancel \<Rightarrow> Some (s\<lparr>ctxErr := Some Canceled\<rparr>)
      | Tick d \<Rightarrow> Some (s\<lparr>now := now s + int d\<rparr>)
      | _ \<Rightarrow> mstep w c a (main s) s)"

fun exec :: "Config \<Rightarrow> RecursiveConfig \<Rightarrow> env \<Rightarrow> action list \<Rightarrow> state \<Rightarrow> state option" where
  "exec w c e [] s = Some s"
| "exec w c e (a # as) s =
     (case step w c e a s of None \<Rightarrow> None | Some s' \<Rightarrow> exec w c e as s')"

subsection \<open>The start of Recurse (lines 85 to 122)\<close>

fun parse_urls :: "string list \<Rightarrow> error + url list" where
  "parse_urls [] = Inr []"
| "parse_urls (uri # rest) =
     (case url_Parse uri of
        Inl err \<Rightarrow> Inl err
      | Inr u \<Rightarrow> (case parse_urls rest of Inl err \<Rightarrow> Inl err | Inr us \<Rightarrow> Inr (u # us)))"

definition seed_task :: "url \<Rightarrow> pageTask" where
  "seed_task u = \<lparr>task_info = PageInfo u None [] 0, is_Download = False\<rparr>"

definition init_state :: "Config \<Rightarrow> url list \<Rightarrow> state" where
  "init_state w urls =
     \<lparr>ch = [], chDone = 0, done_map = {}, tasks = word_of_nat (length urls), dlCount = 0,
      dlTotal = word_of_nat (length urls), gerr = None, lastProgress = None, now = 0,
      ctxErr = None, main = M_seed (map seed_task urls),
      workers = replicate (nworkers w) W_recv, senders = [], trace = []\<rparr>"

text \<open>
  \<open>Recurse w c e acts\<close>: the error of a seed that does not parse, before anything else
  happens; otherwise the state the schedule \<open>acts\<close> leads to from the start, \<open>None\<close> when
  the schedule asks a goroutine to move that cannot.
\<close>

definition Recurse :: "Config \<Rightarrow> RecursiveConfig \<Rightarrow> env \<Rightarrow> action list \<Rightarrow> error + state option" where
  "Recurse w c e acts =
     (case parse_urls (URLs c) of
        Inl err \<Rightarrow> Inl err
      | Inr urls \<Rightarrow> Inr (exec w c e acts (init_state w urls)))"

section \<open>Runs: general lemmas\<close>

text \<open>A property of the start that every step keeps holds after every schedule.\<close>

lemma exec_invariant:
  assumes "exec w c e acts s0 = Some s" and "P s0"
    and "\<And>a s s'. P s \<Longrightarrow> step w c e a s = Some s' \<Longrightarrow> P s'"
  shows "P s"
  using assms(1,2)
proof (induction acts arbitrary: s0)
  case Nil
  then show ?case by simp
next
  case (Cons a acts)
  from Cons.prems(1) obtain s1 where s1: "step w c e a s0 = Some s1"
    and rest: "exec w c e acts s1 = Some s"
    by (auto split: option.splits)
  from assms(3) [OF Cons.prems(2) s1] have "P s1" .
  from Cons.IH [OF rest this] show ?case .
qed

text \<open>What \<open>page\<close> and \<open>download\<close> add to the trace.\<close>

lemma page_cases:
  assumes "page e ctx pi sel tr = (r, tr')"
  obtains
    (panic) "r = None"
  | (failed) err where "r = Some (Inl err)"
      "tr' = tr @ [Request (url_String (URL pi)) (referer pi)]"
  | (extracted) p where "r = Some (Inr p)" "ctx = None"
      "tr' = tr @ [Request (url_String (URL pi)) (referer pi), Extracted p]"
  using assms
  by (auto simp: page_def get_def Let_def split: sum.splits option.splits)

lemma download_cases:
  assumes "download e ctx pi cb tr = (r, tr')"
  obtains
    (failed) err where "r = Some err"
      "tr' = tr @ [Request (url_String (URL pi)) (referer pi)]"
  | (called) "tr' = tr @ [Request (url_String (URL pi)) (referer pi), Callback pi]"
  using assms
  by (auto simp: download_def get_def Let_def split: sum.splits option.splits)

text \<open>
  The steps of a worker, of \<open>Recurse\<close> itself and of a run, one case for each way through
  the code. In a worker's step the list of workers is given as the workers before the one
  that moves, that worker, and the workers after it.
\<close>

lemma wstep_cases [consumes 1, case_names recv gerr_break gerr_ok ctx_break ctx_ok count
    rlock_seen rlock_new lock_seen lock_new skip refuse accept page_err page_ok
    download_err download_cb addtasks addtotal print noprint spawn progress_call progress_skip
    emit doDone break emit_total]:
  assumes "wstep c e pc s = Some (pc', s')"
  obtains
    u rest where "pc = W_recv" "ch s = u # rest" "pc' = W_gerr u" "s' = s\<lparr>ch := rest\<rparr>"
  | u where "pc = W_gerr u" "gerr s \<noteq> None" "pc' = W_break" "s' = s"
  | u where "pc = W_gerr u" "gerr s = None" "pc' = W_ctx u" "s' = s"
  | u err where "pc = W_ctx u" "ctxErr s = Some err" "pc' = W_break" "s' = s\<lparr>gerr := Some err\<rparr>"
  | u where "pc = W_ctx u" "ctxErr s = None" "pc' = W_count u" "s' = s"
  | u where "pc = W_count u" "pc' = W_rlock u" "s' = s\<lparr>dlCount := dlCount s + 1\<rparr>"
  | u where "pc = W_rlock u" "task_key u \<in> done_map s" "pc' = W_doDone" "s' = s"
  | u where "pc = W_rlock u" "task_key u \<notin> done_map s" "pc' = W_lock u" "s' = s"
  | u where "pc = W_lock u" "task_key u \<in> done_map s" "pc' = W_doDone" "s' = s"
  | u where "pc = W_lock u" "task_key u \<notin> done_map s" "pc' = W_work u"
      "s' = s\<lparr>done_map := insert (task_key u) (done_map s)\<rparr>"
  | u where "pc = W_work u" "is_Download u" "Download c = None \<or> DownloadCallback c = None"
      "pc' = W_doDone" "s' = s"
  | u want cb where "pc = W_work u" "is_Download u" "Download c = Some want"
      "DownloadCallback c = Some cb" "\<not> want (task_info u)" "pc' = W_doDone"
      "s' = s\<lparr>trace := trace s @ [Predicate (task_info u)]\<rparr>"
  | u want cb where "pc = W_work u" "is_Download u" "Download c = Some want"
      "DownloadCallback c = Some cb" "want (task_info u)" "pc' = W_download u"
      "s' = s\<lparr>trace := trace s @ [Predicate (task_info u)]\<rparr>"
  | u err where "pc = W_work u" "\<not> is_Download u" "pc' = W_progress (Some err)"
      "fst (page e (ctxErr s) (task_info u) (Selectors c) (trace s)) = Some (Inl err)"
      "s' = s\<lparr>trace := trace s @ [Request (task_key u) (referer (task_info u))]\<rparr>"
  | u p where "pc = W_work u" "\<not> is_Download u" "pc' = W_addtasks u p" "ctxErr s = None"
      "fst (page e None (task_info u) (Selectors c) (trace s)) = Some (Inr p)"
      "s' = s\<lparr>trace := trace s @ [Request (task_key u) (referer (task_info u)), Extracted p]\<rparr>"
  | u cb err where "pc = W_download u" "DownloadCallback c = Some cb" "pc' = W_progress (Some err)"
      "s' = s\<lparr>trace := trace s @ [Request (task_key u) (referer (task_info u))]\<rparr>"
  | u cb err where "pc = W_download u" "DownloadCallback c = Some cb" "pc' = W_progress err"
      "s' = s\<lparr>trace := trace s @ [Request (task_key u) (referer (task_info u)),
                                      Callback (task_info u)]\<rparr>"
  | u p where "pc = W_addtasks u p" "pc' = W_addtotal u p"
      "s' = s\<lparr>tasks := tasks s + word_of_nat (nchildren p)\<rparr>"
  | u p where "pc = W_addtotal u p" "pc' = W_print u p"
      "s' = s\<lparr>dlTotal := dlTotal s + word_of_nat (nchildren p)\<rparr>"
  | u p where "pc = W_print u p" "PrintCallback c \<noteq> None" "Prints p \<noteq> []" "pc' = W_spawn u p"
      "s' = s\<lparr>trace := trace s @ [Print (page_info p) (Prints p)]\<rparr>"
  | u p where "pc = W_print u p" "PrintCallback c = None \<or> Prints p = []" "pc' = W_spawn u p"
      "s' = s"
  | u p where "pc = W_spawn u p" "pc' = W_progress None"
      "s' = s\<lparr>senders := senders s @ [children c u p]\<rparr>"
  | err where "pc = W_progress err" "progress_calls c s err False" "pc' = W_emit err (dlCount s)"
      "s' = s"
  | err where "pc = W_progress err" "\<not> progress_calls c s err False" "pc' = W_doDone" "s' = s"
  | err cur where "pc = W_emit err cur" "pc' = W_doDone"
      "s' = progress_call s err cur (dlTotal s)"
  | "pc = W_doDone" "pc' = W_recv" "s' = s\<lparr>tasks := tasks s + (- 1)\<rparr>"
  | "pc = W_break" "pc' = W_exit" "s' = s\<lparr>chDone := chDone s + 1\<rparr>"
  | err tot where "pc = W_emit_total err tot" "pc' = W_doDone"
      "s' = progress_call s err (dlCount s) tot"
proof (cases pc)
  case W_recv
  from assms W_recv obtain u rest where "ch s = u # rest" "pc' = W_gerr u" "s' = s\<lparr>ch := rest\<rparr>"
    by (cases "ch s") auto
  with W_recv that(1) show ?thesis by blast
next
  case (W_gerr u)
  show ?thesis
  proof (cases "gerr s = None")
    case True
    with assms W_gerr have "pc' = W_ctx u" "s' = s" by simp_all
    with W_gerr True that(3) show ?thesis by blast
  next
    case False
    with assms W_gerr have "pc' = W_break" "s' = s" by simp_all
    with W_gerr False that(2) show ?thesis by blast
  qed
next
  case (W_ctx u)
  show ?thesis
  proof (cases "ctxErr s")
    case None
    with assms W_ctx have "pc' = W_count u" "s' = s" by simp_all
    with W_ctx None that(5) show ?thesis by blast
  next
    case (Some err)
    with assms W_ctx have "pc' = W_break" "s' = s\<lparr>gerr := Some err\<rparr>" by simp_all
    with W_ctx Some that(4) show ?thesis by blast
  qed
next
  case (W_count u)
  with assms have "pc' = W_rlock u" "s' = s\<lparr>dlCount := dlCount s + 1\<rparr>" by simp_all
  with W_count that(6) show ?thesis by blast
next
  case (W_rlock u)
  show ?thesis
  proof (cases "task_key u \<in> done_map s")
    case True
    with assms W_rlock have "pc' = W_doDone" "s' = s" by simp_all
    with W_rlock True that(7) show ?thesis by blast
  next
    case False
    with assms W_rlock have "pc' = W_lock u" "s' = s" by simp_all
    with W_rlock False that(8) show ?thesis by blast
  qed
next
  case (W_lock u)
  show ?thesis
  proof (cases "task_key u \<in> done_map s")
    case True
    with assms W_lock have "pc' = W_doDone" "s' = s" by simp_all
    with W_lock True that(9) show ?thesis by blast
  next
    case False
    with assms W_lock have "pc' = W_work u"
      "s' = s\<lparr>done_map := insert (task_key u) (done_map s)\<rparr>" by simp_all
    with W_lock False that(10) show ?thesis by blast
  qed
next
  case (W_work u)
  show ?thesis
  proof (cases "is_Download u")
    case True
    show ?thesis
    proof (cases "Download c")
      case None
      with assms W_work True have "pc' = W_doDone" "s' = s" by simp_all
      with W_work True None that(11) show ?thesis by blast
    next
      case want: (Some want)
      show ?thesis
      proof (cases "DownloadCallback c")
        case None
        with assms W_work True want have "pc' = W_doDone" "s' = s" by simp_all
        with W_work True None that(11) show ?thesis by blast
      next
        case cb: (Some cb)
        show ?thesis
        proof (cases "want (task_info u)")
          case True
          with assms W_work \<open>is_Download u\<close> want cb have "pc' = W_download u"
            "s' = s\<lparr>trace := trace s @ [Predicate (task_info u)]\<rparr>" by (simp_all add: Let_def)
          with W_work \<open>is_Download u\<close> want cb True that(13) show ?thesis by blast
        next
          case False
          with assms W_work \<open>is_Download u\<close> want cb have "pc' = W_doDone"
            "s' = s\<lparr>trace := trace s @ [Predicate (task_info u)]\<rparr>" by (simp_all add: Let_def)
          with W_work \<open>is_Download u\<close> want cb False that(12) show ?thesis by blast
        qed
      qed
    qed
  next
    case False
    obtain r tr where pg: "page e (ctxErr s) (task_info u) (Selectors c) (trace s) = (r, tr)"
      by (cases "page e (ctxErr s) (task_info u) (Selectors c) (trace s)")
    from pg show ?thesis
    proof (cases rule: page_cases)
      case panic
      with assms W_work False pg show ?thesis by simp
    next
      case (failed err)
      with assms W_work False pg have "pc' = W_progress (Some err)"
        "s' = s\<lparr>trace := trace s @ [Request (task_key u) (referer (task_info u))]\<rparr>"
        by (simp_all add: task_key_def)
      moreover from pg failed
      have "fst (page e (ctxErr s) (task_info u) (Selectors c) (trace s)) = Some (Inl err)"
        by simp
      ultimately show ?thesis using W_work False that(14) by blast
    next
      case (extracted p)
      with assms W_work False pg have "pc' = W_addtasks u p"
        "s' = s\<lparr>trace := trace s @ [Request (task_key u) (referer (task_info u)), Extracted p]\<rparr>"
        by (simp_all add: task_key_def)
      moreover from pg extracted
      have "fst (page e None (task_info u) (Selectors c) (trace s)) = Some (Inr p)"
        by simp
      ultimately show ?thesis using W_work False extracted(2) that(15) by blast
    qed
  qed
next
  case (W_download u)
  with assms obtain cb where cb: "DownloadCallback c = Some cb"
    by (cases "DownloadCallback c") auto
  obtain r tr where dl: "download e (ctxErr s) (task_info u) cb (trace s) = (r, tr)"
    by (cases "download e (ctxErr s) (task_info u) cb (trace s)")
  from dl show ?thesis
  proof (cases rule: download_cases)
    case (failed err)
    with assms W_download cb dl have "pc' = W_progress (Some err)"
      "s' = s\<lparr>trace := trace s @ [Request (task_key u) (referer (task_info u))]\<rparr>"
      by (simp_all add: task_key_def)
    with W_download cb that(16) show ?thesis by blast
  next
    case called
    with assms W_download cb dl have "pc' = W_progress r"
      "s' = s\<lparr>trace := trace s @ [Request (task_key u) (referer (task_info u)),
                                      Callback (task_info u)]\<rparr>"
      by (simp_all add: task_key_def)
    with W_download cb that(17) show ?thesis by blast
  qed
next
  case (W_addtasks u p)
  with assms have "pc' = W_addtotal u p" "s' = s\<lparr>tasks := tasks s + word_of_nat (nchildren p)\<rparr>"
    by simp_all
  with W_addtasks that(18) show ?thesis by blast
next
  case (W_addtotal u p)
  with assms have "pc' = W_print u p" "s' = s\<lparr>dlTotal := dlTotal s + word_of_nat (nchildren p)\<rparr>"
    by simp_all
  with W_addtotal that(19) show ?thesis by blast
next
  case (W_print u p)
  show ?thesis
  proof (cases "PrintCallback c \<noteq> None \<and> Prints p \<noteq> []")
    case True
    with assms W_print have "pc' = W_spawn u p"
      "s' = s\<lparr>trace := trace s @ [Print (page_info p) (Prints p)]\<rparr>" by simp_all
    with W_print True that(20) show ?thesis by blast
  next
    case False
    then have no: "PrintCallback c = None \<or> Prints p = []" by simp
    from False assms W_print have "pc' = W_spawn u p" "s' = s" by auto
    with W_print no that(21) show ?thesis by blast
  qed
next
  case (W_spawn u p)
  with assms have "pc' = W_progress None" "s' = s\<lparr>senders := senders s @ [children c u p]\<rparr>"
    by simp_all
  with W_spawn that(22) show ?thesis by blast
next
  case (W_progress err)
  show ?thesis
  proof (cases "progress_calls c s err False")
    case True
    with assms W_progress have "pc' = W_emit err (dlCount s)" "s' = s" by auto
    with W_progress True that(23) show ?thesis by blast
  next
    case False
    with assms W_progress have "pc' = W_doDone" "s' = s" by auto
    with W_progress False that(24) show ?thesis by blast
  qed
next
  case (W_emit err cur)
  with assms have "pc' = W_doDone" "s' = progress_call s err cur (dlTotal s)" by simp_all
  with W_emit that(25) show ?thesis by blast
next
  case (W_emit_total err tot)
  with assms have "pc' = W_doDone" "s' = progress_call s err (dlCount s) tot" by simp_all
  with W_emit_total that(28) show ?thesis by blast
next
  case W_doDone
  with assms have "pc' = W_recv" "s' = s\<lparr>tasks := tasks s + (- 1)\<rparr>" by simp_all
  with W_doDone that(26) show ?thesis by blast
next
  case W_break
  with assms have "pc' = W_exit" "s' = s\<lparr>chDone := chDone s + 1\<rparr>" by simp_all
  with W_break that(27) show ?thesis by blast
next
  case W_exit
  with assms show ?thesis by simp
qed

lemma wstep_total_cases [consumes 1, case_names read_total]:
  assumes "wstep_total c pc s = Some (pc', s')"
  obtains err where "pc = W_progress err" "progress_calls c s err False"
    "pc' = W_emit_total err (dlTotal s)" "s' = s"
proof (cases pc)
  case (W_progress err)
  with assms have "progress_calls c s err False" "pc' = W_emit_total err (dlTotal s)" "s' = s"
    by (auto split: if_splits)
  with W_progress that show ?thesis by blast
qed (use assms in simp_all)

lemma mstep_cases [consumes 1, case_names seeded send done_last done_more timer_zero timer_wait
    defer_call defer_skip emit defer_total emit_total]:
  assumes "mstep w c a pc s = Some s'"
  obtains
    "a = Main" "pc = M_seed []" "s' = s\<lparr>main := M_wait (int (nworkers w))\<rparr>"
  | u us where "a = Main" "pc = M_seed (u # us)" "length (ch s) < nworkers w"
      "s' = s\<lparr>ch := ch s @ [u], main := M_seed us\<rparr>"
  | cnt where "a = MainDone" "pc = M_wait cnt" "chDone s \<noteq> 0" "cnt - 1 = 0"
      "s' = s\<lparr>chDone := chDone s - 1, main := M_defer (gerr s)\<rparr>"
  | cnt where "a = MainDone" "pc = M_wait cnt" "chDone s \<noteq> 0" "cnt - 1 \<noteq> 0"
      "s' = s\<lparr>chDone := chDone s - 1, main := M_wait (cnt - 1)\<rparr>"
  | cnt where "a = MainTimer" "pc = M_wait cnt" "tasks s = 0" "s' = s\<lparr>main := M_defer (gerr s)\<rparr>"
  | cnt where "a = MainTimer" "pc = M_wait cnt" "tasks s \<noteq> 0" "s' = s"
  | r where "a = Main" "pc = M_defer r" "s' = s\<lparr>main := M_emit r (dlCount s)\<rparr>"
  | r where "a = Main" "pc = M_defer r" "\<not> progress_calls c s None True"
      "s' = s\<lparr>main := M_returned r\<rparr>"
  | r cur where "a = Main" "pc = M_emit r cur"
      "s' = (progress_call s None cur (dlTotal s))\<lparr>main := M_returned r\<rparr>"
  | r where "a = MainT" "pc = M_defer r" "s' = s\<lparr>main := M_emit_total r (dlTotal s)\<rparr>"
  | r tot where "a = Main" "pc = M_emit_total r tot"
      "s' = (progress_call s None (dlCount s) tot)\<lparr>main := M_returned r\<rparr>"
proof (cases pc)
  case (M_seed ts)
  show ?thesis
  proof (cases ts)
    case Nil
    with assms M_seed have "a = Main" by (cases a) simp_all
    moreover from this assms M_seed Nil have "s' = s\<lparr>main := M_wait (int (nworkers w))\<rparr>" by simp
    ultimately show ?thesis using M_seed Nil that(1) by blast
  next
    case (Cons u us)
    with assms M_seed have a: "a = Main" by (cases a) simp_all
    with assms M_seed Cons have "length (ch s) < nworkers w"
      "s' = s\<lparr>ch := ch s @ [u], main := M_seed us\<rparr>"
      by (simp_all split: if_splits)
    with a M_seed Cons that(2) show ?thesis by blast
  qed
next
  case (M_wait cnt)
  with assms consider (d) "a = MainDone" | (t) "a = MainTimer" by (cases a) simp_all
  then show ?thesis
  proof cases
    case d
    with assms M_wait have ne: "chDone s \<noteq> 0" by (simp split: if_splits)
    show ?thesis
    proof (cases "cnt - 1 = 0")
      case True
      with assms M_wait d ne have "s' = s\<lparr>chDone := chDone s - 1, main := M_defer (gerr s)\<rparr>"
        by simp
      with d M_wait ne True that(3) show ?thesis by blast
    next
      case False
      with assms M_wait d ne have "s' = s\<lparr>chDone := chDone s - 1, main := M_wait (cnt - 1)\<rparr>"
        by simp
      with d M_wait ne False that(4) show ?thesis by blast
    qed
  next
    case t
    show ?thesis
    proof (cases "tasks s = 0")
      case True
      with assms M_wait t have "s' = s\<lparr>main := M_defer (gerr s)\<rparr>" by simp
      with t M_wait True that(5) show ?thesis by blast
    next
      case False
      with assms M_wait t have "s' = s" by simp
      with t M_wait False that(6) show ?thesis by blast
    qed
  qed
next
  case (M_defer r)
  with assms consider (m) "a = Main" | (t) "a = MainT" by (cases a) simp_all
  then show ?thesis
  proof cases
    case m
    show ?thesis
    proof (cases "progress_calls c s None True")
      case True
      with assms M_defer m have "s' = s\<lparr>main := M_emit r (dlCount s)\<rparr>" by simp
      with m M_defer that(7) show ?thesis by blast
    next
      case False
      with assms M_defer m have "s' = s\<lparr>main := M_returned r\<rparr>" by simp
      with m M_defer False that(8) show ?thesis by blast
    qed
  next
    case t
    with assms M_defer have "s' = s\<lparr>main := M_emit_total r (dlTotal s)\<rparr>"
      by (simp split: if_splits)
    with t M_defer that(10) show ?thesis by blast
  qed
next
  case (M_emit r cur)
  with assms have a: "a = Main" by (cases a) simp_all
  with assms M_emit have "s' = (progress_call s None cur (dlTotal s))\<lparr>main := M_returned r\<rparr>"
    by simp
  with a M_emit that(9) show ?thesis by blast
next
  case (M_emit_total r tot)
  with assms have a: "a = Main" by (cases a) simp_all
  with assms M_emit_total
  have "s' = (progress_call s None (dlCount s) tot)\<lparr>main := M_returned r\<rparr>" by simp
  with a M_emit_total that(11) show ?thesis by blast
next
  case (M_returned r)
  with assms show ?thesis by (cases a) simp_all
qed

lemma step_cases [consumes 1, case_names worker sender cancel tick main workerT]:
  assumes "step w c e a s = Some s'"
  obtains
    xs pc ys pc' s1 where "a = Worker (length xs)" "workers s = xs @ pc # ys"
      "wstep c e pc s = Some (pc', s1)" "s' = s1\<lparr>workers := xs @ pc' # ys\<rparr>"
  | xs t ts ys where "a = Sender (length xs)" "senders s = xs @ (t # ts) # ys"
      "length (ch s) < nworkers w" "s' = s\<lparr>ch := ch s @ [t], senders := xs @ ts # ys\<rparr>"
  | "a = Cancel" "s' = s\<lparr>ctxErr := Some Canceled\<rparr>"
  | d where "a = Tick d" "s' = s\<lparr>now := now s + int d\<rparr>"
  | "mstep w c a (main s) s = Some s'"
  | xs err ys where "a = WorkerT (length xs)" "workers s = xs @ W_progress err # ys"
      "progress_calls c s err False"
      "s' = s\<lparr>workers := xs @ W_emit_total err (dlTotal s) # ys\<rparr>"
proof (cases a)
  case (Worker i)
  with assms have i: "i < length (workers s)" by (auto simp: step_def split: if_splits)
  with assms Worker obtain pc' s1 where ws: "wstep c e (workers s ! i) s = Some (pc', s1)"
    and s': "s' = s1\<lparr>workers := (workers s)[i := pc']\<rparr>"
    by (auto simp: step_def split: option.splits)
  have "workers s = take i (workers s) @ (workers s ! i) # drop (Suc i) (workers s)"
    using i by (simp add: id_take_nth_drop)
  moreover have "(workers s)[i := pc'] = take i (workers s) @ pc' # drop (Suc i) (workers s)"
    using i by (simp add: upd_conv_take_nth_drop)
  moreover have "i = length (take i (workers s))" using i by simp
  ultimately show ?thesis using that(1) [of "take i (workers s)" "workers s ! i" "drop (Suc i) (workers s)" pc' s1]
    Worker ws s' by simp
next
  case (WorkerT i)
  with assms have i: "i < length (workers s)" by (auto simp: step_def split: if_splits)
  with assms WorkerT obtain pc' s1 where ws: "wstep_total c (workers s ! i) s = Some (pc', s1)"
    and s': "s' = s1\<lparr>workers := (workers s)[i := pc']\<rparr>"
    by (auto simp: step_def split: option.splits)
  from ws obtain err where pc: "workers s ! i = W_progress err"
    and call: "progress_calls c s err False"
    and pc': "pc' = W_emit_total err (dlTotal s)" and s1: "s1 = s"
    by (cases rule: wstep_total_cases)
  have "workers s = take i (workers s) @ W_progress err # drop (Suc i) (workers s)"
    using i pc by (metis id_take_nth_drop)
  moreover have "(workers s)[i := pc'] = take i (workers s) @ pc' # drop (Suc i) (workers s)"
    using i by (simp add: upd_conv_take_nth_drop)
  moreover have "i = length (take i (workers s))" using i by simp
  ultimately show ?thesis
    using that(6) [of "take i (workers s)" err "drop (Suc i) (workers s)"]
      WorkerT call s' pc' s1 by simp
next
  case (Sender j)
  with assms have j: "j < length (senders s)" by (auto simp: step_def split: if_splits)
  with assms Sender obtain t ts where hd: "senders s ! j = t # ts"
    and room: "length (ch s) < nworkers w"
    and s': "s' = s\<lparr>ch := ch s @ [t], senders := (senders s)[j := ts]\<rparr>"
    by (auto simp: step_def split: list.splits if_splits)
  have "senders s = take j (senders s) @ (t # ts) # drop (Suc j) (senders s)"
    using j hd by (metis id_take_nth_drop)
  moreover have "(senders s)[j := ts] = take j (senders s) @ ts # drop (Suc j) (senders s)"
    using j by (simp add: upd_conv_take_nth_drop)
  moreover have "j = length (take j (senders s))" using j by simp
  ultimately show ?thesis using that(2) [of "take j (senders s)" t ts "drop (Suc j) (senders s)"]
    Sender room s' by simp
next
  case Cancel
  with assms that(3) show ?thesis by (simp add: step_def)
next
  case (Tick d)
  with assms that(4) show ?thesis by (simp add: step_def)
next
  case Main
  with assms that(5) show ?thesis by (simp add: step_def)
next
  case MainDone
  with assms that(5) show ?thesis by (simp add: step_def)
next
  case MainTimer
  with assms that(5) show ?thesis by (simp add: step_def)
next
  case MainT
  with assms that(5) show ?thesis by (simp add: step_def)
qed

section \<open>Each URL string is fetched at most once\<close>

text \<open>The URL strings of the GET requests of a trace, in order.\<close>

definition fetched :: "event list \<Rightarrow> string list" where
  "fetched tr = concat (map (\<lambda>ev. case ev of Request u r \<Rightarrow> [u] | _ \<Rightarrow> []) tr)"

text \<open>
  A worker between the insertion of its task's URL into \<open>done\<close> and the request for it
  is about to fetch that URL.
\<close>

fun fetching :: "string \<Rightarrow> wpc \<Rightarrow> nat" where
  "fetching k (W_work u) = (if task_key u = k then 1 else 0)"
| "fetching k (W_download u) = (if task_key u = k then 1 else 0)"
| "fetching k pc = 0"

text \<open>
  For the URL string \<open>k\<close>, the workers about to fetch it and the requests already made for
  it are together at most one, and none unless the string is in \<open>done\<close>.
\<close>

definition once_inv :: "string \<Rightarrow> state \<Rightarrow> bool" where
  "once_inv k s =
     (sum_list (map (fetching k) (workers s)) + count_list (fetched (trace s)) k
        \<le> (if k \<in> done_map s then 1 else 0))"

lemma fetched_simps:
  "fetched [] = []"
  "fetched (tr @ tr') = fetched tr @ fetched tr'"
  "fetched (Request u r # tr) = u # fetched tr"
  "fetched (Extracted p # tr) = fetched tr"
  "fetched (Predicate pi # tr) = fetched tr"
  "fetched (Callback pi # tr) = fetched tr"
  "fetched (Print pi rows # tr) = fetched tr"
  "fetched (Progress err cur tot # tr) = fetched tr"
  by (simp_all add: fetched_def)

lemma step_once:
  assumes inv: "once_inv k s" and st: "step w c e a s = Some s'"
  shows "once_inv k s'"
  using st
proof (cases rule: step_cases)
  case (worker xs pc ys pc' s1)
  from worker(3) show ?thesis
    by (cases rule: wstep_cases)
       (use inv worker(1,2,4) in
         \<open>auto simp: once_inv_def fetched_simps progress_call_def split: if_splits\<close>)
next
  case (sender xs t ts ys)
  with inv show ?thesis by (simp add: once_inv_def)
next
  case cancel
  with inv show ?thesis by (simp add: once_inv_def)
next
  case (tick d)
  with inv show ?thesis by (simp add: once_inv_def)
next
  case main
  then show ?thesis
    by (cases rule: mstep_cases)
       (use inv in \<open>auto simp: once_inv_def fetched_simps progress_call_def\<close>)
next
  case (workerT xs err ys)
  with inv show ?thesis by (simp add: once_inv_def)
qed

lemma once_init: "once_inv k (init_state w urls)"
  by (simp add: once_inv_def init_state_def fetched_def)

lemma count_le_1_distinct: "(\<And>k. count_list xs k \<le> 1) \<Longrightarrow> distinct xs"
proof (induction xs)
  case Nil
  show ?case by simp
next
  case (Cons x xs)
  have "x \<notin> set xs"
  proof
    assume "x \<in> set xs"
    then have "count_list xs x > 0" using count_list_0_iff [of xs x] by auto
    with Cons.prems [of x] show False by simp
  qed
  moreover have "\<And>k. count_list xs k \<le> 1"
  proof -
    fix k
    from Cons.prems [of k] show "count_list xs k \<le> 1" by (simp split: if_splits)
  qed
  ultimately show ?case using Cons.IH by simp
qed

text \<open>
  C1. In every state a run of \<open>Recurse\<close> reaches, under every schedule of its goroutines,
  with or without cancellation, the GET requests issued so far are for pairwise different
  URL strings: no URL string is fetched twice, however often it is discovered and whether
  as a link or as a download. (Requests the HTTP client itself adds when it follows a
  redirect are outside the model.)
\<close>

theorem fetch_at_most_once:
  assumes "Recurse w c e acts = Inr (Some s)"
  shows "distinct (fetched (trace s))"
proof -
  from assms obtain urls where ex: "exec w c e acts (init_state w urls) = Some s"
    by (auto simp: Recurse_def split: sum.splits)
  have "\<And>k. count_list (fetched (trace s)) k \<le> 1"
  proof -
    fix k
    have "once_inv k s"
      by (rule exec_invariant [where P = "once_inv k", OF ex once_init]) (rule step_once)
    then show "count_list (fetched (trace s)) k \<le> 1"
      by (simp add: once_inv_def split: if_splits)
  qed
  then show ?thesis by (rule count_le_1_distinct)
qed

section \<open>The counters\<close>

text \<open>
  What a worker at a control point contributes: the task it holds (a worker that has left
  its loop after a cancellation keeps the task it had received, which is never finished);
  whether that task has not been counted in \<open>dlCount\<close>; and the children of its page that
  are extracted but not yet added to \<open>tasks\<close> (\<open>found\<close>), added to \<open>tasks\<close> but not to
  \<open>dlTotal\<close> (\<open>added\<close>), or added to both but not yet handed to a sending goroutine
  (\<open>totalled\<close>).
\<close>

fun held :: "wpc \<Rightarrow> nat" where
  "held W_recv = 0"
| "held pc = 1"

fun uncounted :: "wpc \<Rightarrow> nat" where
  "uncounted (W_gerr u) = 1"
| "uncounted (W_ctx u) = 1"
| "uncounted (W_count u) = 1"
| "uncounted W_break = 1"
| "uncounted W_exit = 1"
| "uncounted pc = 0"

fun found :: "wpc \<Rightarrow> nat" where
  "found (W_addtasks u p) = nchildren p"
| "found pc = 0"

fun added :: "wpc \<Rightarrow> nat" where
  "added (W_addtotal u p) = nchildren p"
| "added pc = 0"

fun totalled :: "wpc \<Rightarrow> nat" where
  "totalled (W_print u p) = nchildren p"
| "totalled (W_spawn u p) = nchildren p"
| "totalled pc = 0"

text \<open>The tasks waiting: seeds not yet sent, the channel, and the sending goroutines.\<close>

fun unsent :: "mpc \<Rightarrow> nat" where
  "unsent (M_seed ts) = length ts"
| "unsent pc = 0"

definition queued :: "state \<Rightarrow> nat" where
  "queued s = unsent (main s) + length (ch s) + sum_list (map length (senders s))"

text \<open>The tasks that \<open>tasks\<close> has been told about and that are not finished.\<close>

definition outstanding :: "state \<Rightarrow> nat" where
  "outstanding s =
     queued s + sum_list (map held (workers s)) + sum_list (map added (workers s))
     + sum_list (map totalled (workers s))"

text \<open>
  The number of children of the pages extracted so far, and with the \<open>n\<close> seeds the number
  of tasks the run has discovered, as unbounded numbers.
\<close>

definition extracted :: "event list \<Rightarrow> nat" where
  "extracted tr = sum_list (map (\<lambda>ev. case ev of Extracted p \<Rightarrow> nchildren p | _ \<Rightarrow> 0) tr)"

definition discovered :: "nat \<Rightarrow> state \<Rightarrow> nat" where
  "discovered n s = n + extracted (trace s)"

text \<open>
  The counters as 64-bit words against these numbers: the equations hold modulo \<open>2^64\<close>
  whatever the size of the crawl, the inequalities are about the numbers themselves.
\<close>

definition counters_inv :: "nat \<Rightarrow> state \<Rightarrow> bool" where
  "counters_inv n s =
     (tasks s = word_of_nat (outstanding s)
      \<and> dlTotal s + word_of_nat (sum_list (map found (workers s)) + sum_list (map added (workers s)))
          = word_of_nat (discovered n s)
      \<and> dlCount s + word_of_nat (queued s + sum_list (map uncounted (workers s))
                                  + sum_list (map totalled (workers s)))
          = dlTotal s
      \<and> sum_list (map found (workers s)) + sum_list (map added (workers s))
          + sum_list (map totalled (workers s)) + queued s + sum_list (map uncounted (workers s))
          \<le> discovered n s
      \<and> outstanding s + sum_list (map found (workers s)) \<le> discovered n s)"

lemma extracted_simps:
  "extracted [] = 0"
  "extracted (tr @ tr') = extracted tr + extracted tr'"
  "extracted (Request u r # tr) = extracted tr"
  "extracted (Extracted p # tr) = nchildren p + extracted tr"
  "extracted (Predicate pi # tr) = extracted tr"
  "extracted (Callback pi # tr) = extracted tr"
  "extracted (Print pi rows # tr) = extracted tr"
  "extracted (Progress err cur tot # tr) = extracted tr"
  by (simp_all add: extracted_def)

lemma send_downloads_length: "length (send_downloads rv u p i ds) = length ds"
  by (induction ds arbitrary: i) simp_all

lemma send_links_length: "length (send_links rv p i ls) = length ls"
  by (induction ls arbitrary: i) simp_all

lemma children_length: "length (children c u p) = nchildren p"
  by (simp add: children_def nchildren_def send_downloads_length send_links_length)

lemma counters_init: "counters_inv (length urls) (init_state w urls)"
  by (simp add: counters_inv_def init_state_def outstanding_def queued_def discovered_def
      extracted_def sum_list_replicate)

lemma step_counters:
  assumes inv: "counters_inv n s" and st: "step w c e a s = Some s'"
  shows "counters_inv n s'"
  using st
proof (cases rule: step_cases)
  case (worker xs pc ys pc' s1)
  from worker(3) show ?thesis
    by (cases rule: wstep_cases)
       (use inv worker(1,2,4) in
         \<open>simp_all add: counters_inv_def outstanding_def queued_def discovered_def
            extracted_simps progress_call_def children_length algebra_simps\<close>)
next
  case (sender xs t ts ys)
  with inv show ?thesis
    by (simp add: counters_inv_def outstanding_def queued_def discovered_def algebra_simps)
next
  case cancel
  with inv show ?thesis
    by (simp add: counters_inv_def outstanding_def queued_def discovered_def)
next
  case (tick d)
  with inv show ?thesis
    by (simp add: counters_inv_def outstanding_def queued_def discovered_def)
next
  case main
  then show ?thesis
    by (cases rule: mstep_cases)
       (use inv in
         \<open>simp_all add: counters_inv_def outstanding_def queued_def discovered_def
            extracted_simps progress_call_def algebra_simps\<close>)
next
  case (workerT xs err ys)
  with inv show ?thesis
    by (simp add: counters_inv_def outstanding_def queued_def discovered_def)
qed

text \<open>Below \<open>2^64\<close> discovered tasks the words are the numbers.\<close>

lemma word_sum_unat:
  fixes x :: "64 word"
  assumes "x + word_of_nat m = word_of_nat d" and "m \<le> d" and "d < 2 ^ 64"
  shows "unat x + m = d"
proof -
  from assms(1) have "x = word_of_nat d - word_of_nat m"
    by (simp add: algebra_simps)
  also have "\<dots> = word_of_nat (d - m)"
    using assms(2) by (simp add: of_nat_diff)
  finally have "unat x = (d - m) mod 2 ^ 64"
    by (simp add: unat_of_nat)
  with assms(2,3) show ?thesis by simp
qed

lemma word_of_nat_unat:
  fixes x :: "64 word"
  assumes "x = word_of_nat d" and "d < 2 ^ 64"
  shows "unat x = d"
  using assms by (simp add: unat_of_nat)


lemma counters_unat:
  assumes inv: "counters_inv n s" and b: "discovered n s < 2 ^ 64"
  shows "unat (tasks s) = outstanding s"
    and "unat (dlTotal s) + (sum_list (map found (workers s)) + sum_list (map added (workers s)))
           = discovered n s"
    and "unat (dlCount s) + (queued s + sum_list (map uncounted (workers s))
                             + sum_list (map totalled (workers s)))
           = unat (dlTotal s)"
proof -
  from inv have t: "tasks s = word_of_nat (outstanding s)"
    and tot: "dlTotal s + word_of_nat (sum_list (map found (workers s)) + sum_list (map added (workers s)))
          = word_of_nat (discovered n s)"
    and cnt: "dlCount s + word_of_nat (queued s + sum_list (map uncounted (workers s))
                                  + sum_list (map totalled (workers s)))
          = dlTotal s"
    and le1: "sum_list (map found (workers s)) + sum_list (map added (workers s))
          + sum_list (map totalled (workers s)) + queued s + sum_list (map uncounted (workers s))
          \<le> discovered n s"
    and le2: "outstanding s + sum_list (map found (workers s)) \<le> discovered n s"
    by (simp_all add: counters_inv_def)
  from le2 b have "outstanding s < 2 ^ 64" by simp
  with t show "unat (tasks s) = outstanding s" by (rule word_of_nat_unat)
  from le1 have "sum_list (map found (workers s)) + sum_list (map added (workers s)) \<le> discovered n s"
    by simp
  from word_sum_unat [OF tot this b]
  show tn: "unat (dlTotal s) + (sum_list (map found (workers s)) + sum_list (map added (workers s)))
           = discovered n s" .
  have "dlCount s + word_of_nat (queued s + sum_list (map uncounted (workers s))
                                  + sum_list (map totalled (workers s)))
          = word_of_nat (unat (dlTotal s))"
    using cnt by simp
  moreover have "queued s + sum_list (map uncounted (workers s))
                  + sum_list (map totalled (workers s)) \<le> unat (dlTotal s)"
    using le1 tn by simp
  moreover have "unat (dlTotal s) < 2 ^ 64"
    using unsigned_less [of "dlTotal s", where ?'a = nat] by simp
  ultimately show "unat (dlCount s) + (queued s + sum_list (map uncounted (workers s))
                             + sum_list (map totalled (workers s)))
           = unat (dlTotal s)"
    by (rule word_sum_unat)
qed

lemma step_discovered:
  assumes st: "step w c e a s = Some s'"
  shows "discovered n s \<le> discovered n s'"
  using st
proof (cases rule: step_cases)
  case (worker xs pc ys pc' s1)
  from worker(3) show ?thesis
    by (cases rule: wstep_cases)
       (use worker(4) in \<open>simp_all add: discovered_def extracted_simps progress_call_def\<close>)
next
  case main
  then show ?thesis
    by (cases rule: mstep_cases)
       (simp_all add: discovered_def extracted_simps progress_call_def)
qed (simp_all add: discovered_def)

section \<open>The counters of a run\<close>

lemma parse_urls_length: "parse_urls us = Inr urls \<Longrightarrow> length urls = length us"
  by (induction us arbitrary: urls) (auto split: sum.splits)

lemma exec_counters:
  assumes "exec w c e acts (init_state w urls) = Some s"
  shows "counters_inv (length urls) s"
  by (rule exec_invariant [where P = "counters_inv (length urls)", OF assms])
     (auto simp: counters_init intro: step_counters)

text \<open>
  The counters themselves never cross: in every state of a run that has discovered fewer
  than \<open>2^64\<close> tasks, \<open>dlCount\<close> is at most \<open>dlTotal\<close>.
\<close>

lemma dlCount_le_dlTotal:
  assumes "exec w c e acts (init_state w urls) = Some s"
    and "discovered (length urls) s < 2 ^ 64"
  shows "unat (dlCount s) \<le> unat (dlTotal s)"
  using counters_unat(3) [OF exec_counters [OF assms(1)] assms(2)] by simp

section \<open>Download tasks without predicate or callback\<close>


section \<open>The children of a page\<close>




section \<open>Termination of a crawl\<close>

text \<open>
  The tasks a crawl of the seeds \<open>urls\<close> can come to hold: the seed tasks, and the children
  of every page that the fetch of a page task among them returns.
\<close>

inductive_set crawl_tasks :: "RecursiveConfig \<Rightarrow> env \<Rightarrow> url list \<Rightarrow> pageTask set"
  for c :: RecursiveConfig and e :: env and urls :: "url list" where
  seed: "u \<in> set urls \<Longrightarrow> seed_task u \<in> crawl_tasks c e urls"
| child: "t \<in> crawl_tasks c e urls \<Longrightarrow> \<not> is_Download t \<Longrightarrow>
          fst (page e None (task_info t) (Selectors c) tr) = Some (Inr p) \<Longrightarrow>
          t' \<in> set (children c t p) \<Longrightarrow> t' \<in> crawl_tasks c e urls"

text \<open>The tasks a worker holds or is about to hand to a sending goroutine.\<close>

fun wtasks :: "RecursiveConfig \<Rightarrow> wpc \<Rightarrow> pageTask set" where
  "wtasks c (W_gerr u) = {u}"
| "wtasks c (W_ctx u) = {u}"
| "wtasks c (W_count u) = {u}"
| "wtasks c (W_rlock u) = {u}"
| "wtasks c (W_lock u) = {u}"
| "wtasks c (W_work u) = {u}"
| "wtasks c (W_addtasks u p) = set (children c u p)"
| "wtasks c (W_addtotal u p) = set (children c u p)"
| "wtasks c (W_print u p) = set (children c u p)"
| "wtasks c (W_spawn u p) = set (children c u p)"
| "wtasks c pc = {}"

definition tasks_in :: "pageTask set \<Rightarrow> RecursiveConfig \<Rightarrow> state \<Rightarrow> bool" where
  "tasks_in T c s =
     (set (ch s) \<subseteq> T
      \<and> (\<forall>l \<in> set (senders s). set l \<subseteq> T)
      \<and> (\<forall>ts. main s = M_seed ts \<longrightarrow> set ts \<subseteq> T)
      \<and> (\<forall>pc \<in> set (workers s). wtasks c pc \<subseteq> T))"

lemma tasks_in_init: "tasks_in (crawl_tasks c e urls) c (init_state w urls)"
  by (auto simp: tasks_in_def init_state_def intro: crawl_tasks.seed)

lemma step_tasks_in:
  assumes inv: "tasks_in (crawl_tasks c e urls) c s" and st: "step w c e a s = Some s'"
  shows "tasks_in (crawl_tasks c e urls) c s'"
  using st
proof (cases rule: step_cases)
  case (worker xs pc ys pc' s1)
  from worker(3) show ?thesis
  proof (cases rule: wstep_cases)
    case (page_ok u p)
    from inv worker(2) page_ok(1) have "u \<in> crawl_tasks c e urls"
      by (simp add: tasks_in_def)
    from crawl_tasks.child [OF this page_ok(2) page_ok(5)]
    have "set (children c u p) \<subseteq> crawl_tasks c e urls" by blast
    with inv worker(2,4) page_ok show ?thesis by (simp add: tasks_in_def)
  qed (use inv worker(2,4) in \<open>auto simp: tasks_in_def progress_call_def\<close>)
next
  case (sender xs t ts ys)
  with inv show ?thesis by (auto simp: tasks_in_def)
next
  case cancel
  with inv show ?thesis by (simp add: tasks_in_def)
next
  case (tick d)
  with inv show ?thesis by (simp add: tasks_in_def)
next
  case main
  then show ?thesis
    by (cases rule: mstep_cases) (use inv in \<open>auto simp: tasks_in_def progress_call_def\<close>)
next
  case (workerT xs err ys)
  with inv show ?thesis by (simp add: tasks_in_def)
qed

lemma exec_tasks_in:
  assumes "exec w c e acts (init_state w urls) = Some s"
  shows "tasks_in (crawl_tasks c e urls) c s"
  by (rule exec_invariant [where P = "tasks_in (crawl_tasks c e urls) c", OF assms])
     (auto simp: tasks_in_init intro: step_tasks_in)

text \<open>
  The measure of a run. First the URL strings of tasks that are not yet in \<open>done\<close>, plus
  the workers that have inserted one and not yet begun the fetch: only the insertion at
  line 149 lets a worker go on to fetch, so this number falls with every fetch and never
  rises. Second, for the steps in between, what every goroutine has left to do before it
  waits, fetches or returns, counting a task still to be sent for the work its receiver
  will do until the visited check.
\<close>

fun marked :: "wpc \<Rightarrow> nat" where
  "marked (W_work u) = 1"
| "marked pc = 0"

fun wleft :: "wpc \<Rightarrow> nat" where
  "wleft W_recv = 0"
| "wleft (W_gerr u) = 10"
| "wleft (W_ctx u) = 9"
| "wleft (W_count u) = 8"
| "wleft (W_rlock u) = 7"
| "wleft (W_lock u) = 6"
| "wleft (W_work u) = 5"
| "wleft (W_download u) = 4"
| "wleft (W_addtasks u p) = 7 + 12 * nchildren p"
| "wleft (W_addtotal u p) = 6 + 12 * nchildren p"
| "wleft (W_print u p) = 5 + 12 * nchildren p"
| "wleft (W_spawn u p) = 4 + 12 * nchildren p"
| "wleft (W_progress err) = 3"
| "wleft (W_emit err cur) = 2"
| "wleft (W_emit_total err tot) = 2"
| "wleft W_doDone = 1"
| "wleft W_break = 2"
| "wleft W_exit = 0"

fun mleft :: "mpc \<Rightarrow> nat" where
  "mleft (M_seed ts) = 4"
| "mleft (M_wait cnt) = 3"
| "mleft (M_defer r) = 2"
| "mleft (M_emit r cur) = 1"
| "mleft (M_emit_total r tot) = 1"
| "mleft (M_returned r) = 0"

definition unvisited :: "string set \<Rightarrow> state \<Rightarrow> nat" where
  "unvisited K s = card (K - done_map s) + sum_list (map marked (workers s))"

definition work_left :: "state \<Rightarrow> nat" where
  "work_left s =
     12 * (unsent (main s) + sum_list (map length (senders s))) + 11 * length (ch s)
     + sum_list (map wleft (workers s)) + mleft (main s) + chDone s"

text \<open>
  The steps that count: a goroutine of the run moves. Time passing, a cancellation from
  outside, and a timer of \<open>Recurse\<close> that fires while \<open>tasks\<close> is not 0 (line 231, after
  which it waits again) are not among them.
\<close>

fun busy :: "action \<Rightarrow> state \<Rightarrow> bool" where
  "busy (Tick d) s = False"
| "busy Cancel s = False"
| "busy MainTimer s = (tasks s = 0)"
| "busy a s = True"

lemma step_decreases:
  assumes inv: "tasks_in T c s" and fin: "finite (task_key ` T)"
    and st: "step w c e a s = Some s'" and busy: "busy a s"
  shows "unvisited (task_key ` T) s' < unvisited (task_key ` T) s
         \<or> (unvisited (task_key ` T) s' = unvisited (task_key ` T) s
            \<and> work_left s' < work_left s)"
  using st
proof (cases rule: step_cases)
  case (worker xs pc ys pc' s1)
  from worker(3) show ?thesis
  proof (cases rule: wstep_cases)
    case (lock_new u)
    from inv worker(2) lock_new(1) have "u \<in> T" by (simp add: tasks_in_def)
    then have k: "task_key u \<in> task_key ` T - done_map s" using lock_new(2) by blast
    have f: "finite (task_key ` T - done_map s)" using fin by simp
    have "task_key ` T - insert (task_key u) (done_map s)
        = (task_key ` T - done_map s) - {task_key u}" by blast
    with card_Suc_Diff1 [OF f k]
    have "card (task_key ` T - insert (task_key u) (done_map s)) + 1
        = card (task_key ` T - done_map s)"
      by simp
    with worker(2,4) lock_new show ?thesis
      by (simp add: unvisited_def work_left_def)
  next
    case (spawn u p)
    with worker(2,4) show ?thesis
      by (simp add: unvisited_def work_left_def children_length nchildren_def)
  qed (use worker(2,4) in \<open>simp_all add: unvisited_def work_left_def progress_call_def\<close>)
next
  case (sender xs t ts ys)
  then show ?thesis by (simp add: unvisited_def work_left_def)
next
  case cancel
  with busy show ?thesis by simp
next
  case (tick d)
  with busy show ?thesis by simp
next
  case main
  then show ?thesis
  proof (cases rule: mstep_cases)
    case (done_last cnt)
    then show ?thesis by (simp add: unvisited_def work_left_def)
  next
    case (done_more cnt)
    then show ?thesis by (simp add: unvisited_def work_left_def)
  next
    case (timer_wait cnt)
    with busy show ?thesis by simp
  qed (simp_all add: unvisited_def work_left_def progress_call_def)
next
  case (workerT xs err ys)
  then show ?thesis by (simp add: unvisited_def work_left_def)
qed

text \<open>A run in which the context is never cancelled: nobody leaves the worker loop.\<close>

definition running :: "Config \<Rightarrow> RecursiveConfig \<Rightarrow> state \<Rightarrow> bool" where
  "running w c s =
     (ctxErr s = None \<and> gerr s = None \<and> chDone s = 0
      \<and> W_break \<notin> set (workers s) \<and> W_exit \<notin> set (workers s)
      \<and> (\<forall>u. W_download u \<in> set (workers s) \<longrightarrow> DownloadCallback c \<noteq> None)
      \<and> length (workers s) = nworkers w)"

lemma running_init: "running w c (init_state w urls)"
  by (simp add: running_def init_state_def)

lemma step_running:
  assumes inv: "running w c s" and st: "step w c e a s = Some s'" and a: "a \<noteq> Cancel"
  shows "running w c s'"
  using st
proof (cases rule: step_cases)
  case (worker xs pc ys pc' s1)
  from worker(3) show ?thesis
    by (cases rule: wstep_cases)
       (use inv worker(2,4) in \<open>auto simp: running_def progress_call_def\<close>)
next
  case (sender xs t ts ys)
  with inv show ?thesis by (simp add: running_def)
next
  case cancel
  with a show ?thesis by simp
next
  case (tick d)
  with inv show ?thesis by (simp add: running_def)
next
  case main
  then show ?thesis
    by (cases rule: mstep_cases) (use inv in \<open>auto simp: running_def progress_call_def\<close>)
next
  case (workerT xs err ys)
  with inv show ?thesis by (auto simp: running_def)
qed

lemma exec_invariant_uncancelled:
  assumes "exec w c e acts s0 = Some s" and "Cancel \<notin> set acts" and "P s0"
    and "\<And>a s s'. P s \<Longrightarrow> a \<noteq> Cancel \<Longrightarrow> step w c e a s = Some s' \<Longrightarrow> P s'"
  shows "P s"
  using assms(1,2,3)
proof (induction acts arbitrary: s0)
  case Nil
  then show ?case by simp
next
  case (Cons a acts)
  from Cons.prems(1) obtain s1 where s1: "step w c e a s0 = Some s1"
    and rest: "exec w c e acts s1 = Some s"
    by (auto split: option.splits)
  from Cons.prems(2) have "a \<noteq> Cancel" "Cancel \<notin> set acts" by auto
  from assms(4) [OF Cons.prems(3) this(1) s1] have "P s1" .
  from Cons.IH [OF rest \<open>Cancel \<notin> set acts\<close> this] show ?case .
qed

lemma exec_running:
  assumes "exec w c e acts (init_state w urls) = Some s" and "Cancel \<notin> set acts"
  shows "running w c s"
  by (rule exec_invariant_uncancelled [where P = "running w c", OF assms])
     (auto simp: running_init intro: step_running)

text \<open>Once nothing is outstanding, nothing is outstanding ever after.\<close>

lemma held_0: "held pc = 0 \<longleftrightarrow> pc = W_recv"
  by (cases pc) simp_all

lemma outstanding_0:
  "outstanding s = 0 \<longleftrightarrow>
     unsent (main s) = 0 \<and> ch s = [] \<and> (\<forall>l \<in> set (senders s). l = [])
     \<and> (\<forall>pc \<in> set (workers s). pc = W_recv)"
proof
  assume "outstanding s = 0"
  then show "unsent (main s) = 0 \<and> ch s = [] \<and> (\<forall>l \<in> set (senders s). l = [])
     \<and> (\<forall>pc \<in> set (workers s). pc = W_recv)"
    by (auto simp: outstanding_def queued_def sum_list_eq_0_iff held_0)
next
  assume h: "unsent (main s) = 0 \<and> ch s = [] \<and> (\<forall>l \<in> set (senders s). l = [])
     \<and> (\<forall>pc \<in> set (workers s). pc = W_recv)"
  then have "sum_list (map held (workers s)) = 0" "sum_list (map added (workers s)) = 0"
    "sum_list (map totalled (workers s)) = 0" "sum_list (map length (senders s)) = 0"
    by (auto simp: sum_list_eq_0_iff)
  with h show "outstanding s = 0" by (simp add: outstanding_def queued_def)
qed

lemma step_quiet:
  assumes q: "outstanding s = 0" and st: "step w c e a s = Some s'"
  shows "outstanding s' = 0"
  using st
proof (cases rule: step_cases)
  case (worker xs pc ys pc' s1)
  from q worker(2) have pc: "pc = W_recv" and "ch s = []" by (simp_all add: outstanding_0)
  with worker(3) show ?thesis by simp
next
  case (sender xs t ts ys)
  with q show ?thesis by (simp add: outstanding_0)
next
  case cancel
  with q show ?thesis by (simp add: outstanding_0)
next
  case (tick d)
  with q show ?thesis by (simp add: outstanding_0)
next
  case main
  then show ?thesis
    by (cases rule: mstep_cases) (use q in \<open>auto simp: outstanding_0 progress_call_def\<close>)
next
  case (workerT xs err ys)
  with q show ?thesis by (simp add: outstanding_0)
qed

lemma exec_quiet:
  "exec w c e acts s = Some s' \<Longrightarrow> outstanding s = 0 \<Longrightarrow> outstanding s' = 0"
proof (induction acts arbitrary: s)
  case Nil
  then show ?case by simp
next
  case (Cons a acts)
  from Cons.prems(1) obtain s1 where s1: "step w c e a s = Some s1"
    and rest: "exec w c e acts s1 = Some s'"
    by (auto split: option.splits)
  from Cons.IH [OF rest step_quiet [OF Cons.prems(2) s1]] show ?case .
qed

text \<open>\<open>Recurse\<close> returns only when nothing is outstanding, and without an error.\<close>

fun returning :: "mpc \<Rightarrow> error option option" where
  "returning (M_seed ts) = None"
| "returning (M_wait cnt) = None"
| "returning (M_defer r) = Some r"
| "returning (M_emit r cur) = Some r"
| "returning (M_emit_total r tot) = Some r"
| "returning (M_returned r) = Some r"

definition returns_inv :: "nat \<Rightarrow> state \<Rightarrow> bool" where
  "returns_inv n s =
     (discovered n s < 2 ^ 64 \<longrightarrow>
        (\<forall>r. returning (main s) = Some r \<longrightarrow> r = None \<and> outstanding s = 0))"

lemma wstep_main:
  assumes "wstep c e pc s = Some (pc', s1)"
  shows "main s1 = main s"
  using assms by (cases rule: wstep_cases) (simp_all add: progress_call_def)

lemma step_returns:
  assumes run: "running w c s" and cnt: "counters_inv n s" and inv: "returns_inv n s"
    and st: "step w c e a s = Some s'"
  shows "returns_inv n s'"
  unfolding returns_inv_def
proof (intro impI allI)
  fix r
  assume b': "discovered n s' < 2 ^ 64" and r: "returning (main s') = Some r"
  from step_discovered [OF st, of n] b' have b: "discovered n s < 2 ^ 64" by simp
  have keep: "r = None \<and> outstanding s' = 0" if "returning (main s) = Some r"
  proof -
    from inv b that have "r = None" "outstanding s = 0" by (simp_all add: returns_inv_def)
    with step_quiet [OF this(2) st] show ?thesis by simp
  qed
  from st show "r = None \<and> outstanding s' = 0"
  proof (cases rule: step_cases)
    case (worker xs pc ys pc' s1)
    with wstep_main [OF worker(3)] r keep show ?thesis by simp
  next
    case (sender xs t ts ys)
    with r keep show ?thesis by simp
  next
    case cancel
    with r keep show ?thesis by simp
  next
    case (tick d)
    with r keep show ?thesis by simp
  next
    case main
    then show ?thesis
    proof (cases rule: mstep_cases)
      case seeded
      with r show ?thesis by simp
    next
      case (send u us)
      with r show ?thesis by simp
    next
      case (done_last cnt)
      with run show ?thesis by (simp add: running_def)
    next
      case (done_more cnt)
      with run show ?thesis by (simp add: running_def)
    next
      case (timer_zero cnt)
      from counters_unat(1) [OF cnt b] timer_zero(3) have "outstanding s = 0" by simp
      with step_quiet [OF this st] run timer_zero r show ?thesis by (simp add: running_def)
    next
      case (timer_wait cnt)
      with r show ?thesis by simp
    next
      case (defer_call r')
      with r have "returning (main s) = Some r" by (simp)
      from keep [OF this] show ?thesis .
    next
      case (defer_skip r')
      with r have "returning (main s) = Some r" by (simp)
      from keep [OF this] show ?thesis .
    next
      case (emit r' cur)
      with r have "returning (main s) = Some r" by (simp add: progress_call_def)
      from keep [OF this] show ?thesis .
    next
      case (defer_total r')
      with r have "returning (main s) = Some r" by (simp)
      from keep [OF this] show ?thesis .
    next
      case (emit_total r' tot)
      with r have "returning (main s) = Some r" by (simp add: progress_call_def)
      from keep [OF this] show ?thesis .
    qed
  next
    case (workerT xs err ys)
    with r keep show ?thesis by simp
  qed
qed

definition uncancelled :: "Config \<Rightarrow> RecursiveConfig \<Rightarrow> nat \<Rightarrow> state \<Rightarrow> bool" where
  "uncancelled w c n s = (running w c s \<and> counters_inv n s \<and> returns_inv n s)"

lemma exec_uncancelled:
  assumes "exec w c e acts (init_state w urls) = Some s" and "Cancel \<notin> set acts"
  shows "uncancelled w c (length urls) s"
proof (rule exec_invariant_uncancelled [where P = "uncancelled w c (length urls)", OF assms])
  show "uncancelled w c (length urls) (init_state w urls)"
  proof -
    have "returns_inv (length urls) (init_state w urls)"
      by (simp add: returns_inv_def init_state_def)
    then show ?thesis by (simp add: uncancelled_def running_init counters_init)
  qed
next
  fix a s s'
  assume "uncancelled w c (length urls) s" "a \<noteq> Cancel" "step w c e a s = Some s'"
  then show "uncancelled w c (length urls) s'"
    unfolding uncancelled_def
    by (blast intro: step_running step_counters step_returns)
qed

text \<open>Without a cancellation, somebody can move until \<open>Recurse\<close> has returned.\<close>

lemma page_total: "fst (page e ctx pi sel tr) \<noteq> None"
proof -
  have "\<exists>p. page_extract doc pi sel = Some p" for doc
    using page_prints_cells [of doc "sel_Prints sel"]
    by (auto simp: page_extract_def Let_def)
  then have x: "page_extract doc pi sel = None \<longleftrightarrow> False" for doc
    by (metis option.distinct(1))
  show ?thesis
    by (auto simp: page_def get_def Let_def x split: sum.splits option.splits prod.splits)
qed

lemma wstep_enabled:
  assumes "pc \<noteq> W_recv" and "pc \<noteq> W_exit"
    and "\<forall>u. pc = W_download u \<longrightarrow> DownloadCallback c \<noteq> None"
  shows "\<exists>pc' s'. wstep c e pc s = Some (pc', s')"
proof (cases pc)
  case (W_work u)
  obtain r tr where pg: "page e (ctxErr s) (task_info u) (Selectors c) (trace s) = (r, tr)"
    by (cases "page e (ctxErr s) (task_info u) (Selectors c) (trace s)")
  with page_total [of e "ctxErr s" "task_info u" "Selectors c" "trace s"]
  obtain v where "r = Some v" by auto
  with W_work pg show ?thesis
    by (cases v) (auto simp: Let_def split: option.splits)
next
  case (W_download u)
  with assms(3) show ?thesis by (auto split: option.splits prod.splits)
next
  case (W_ctx u)
  then show ?thesis by (auto split: option.splits)
qed (use assms in simp_all)

lemma can_move:
  assumes run: "running w c s" and cnt: "counters_inv n s"
    and nr: "\<forall>r. main s \<noteq> M_returned r"
  shows "\<exists>a s'. busy a s \<and> step w c e a s = Some s'"
proof -
  have nw: "0 < nworkers w" by (simp add: nworkers_def)
  with run have len: "0 < length (workers s)" by (simp add: running_def)
  consider (working) pc where "pc \<in> set (workers s)" "pc \<noteq> W_recv"
    | (waiting) "\<forall>pc \<in> set (workers s). pc = W_recv" "ch s \<noteq> []"
    | (sending) "\<forall>pc \<in> set (workers s). pc = W_recv" "ch s = []"
        "\<exists>l \<in> set (senders s). l \<noteq> []"
    | (idle) "\<forall>pc \<in> set (workers s). pc = W_recv" "ch s = []"
        "\<forall>l \<in> set (senders s). l = []"
    by blast
  then show ?thesis
  proof cases
    case working
    from working(1) obtain i where i: "i < length (workers s)" and pc: "workers s ! i = pc"
      by (auto simp: in_set_conv_nth)
    from run working(1) have "pc \<noteq> W_exit"
      and "\<forall>u. pc = W_download u \<longrightarrow> DownloadCallback c \<noteq> None"
      by (auto simp: running_def)
    from wstep_enabled [OF working(2) this, of e s]
    obtain pc' s1 where "wstep c e pc s = Some (pc', s1)" by blast
    with i pc have "step w c e (Worker i) s = Some (s1\<lparr>workers := (workers s)[i := pc']\<rparr>)"
      by (simp add: step_def)
    moreover have "busy (Worker i) s" by simp
    ultimately show ?thesis by blast
  next
    case waiting
    from waiting(1) len have pc: "workers s ! 0 = W_recv" by simp
    from waiting(2) obtain u rest where "ch s = u # rest" by (cases "ch s") simp_all
    with pc len have "step w c e (Worker 0) s
        = Some (s\<lparr>ch := rest, workers := (workers s)[0 := W_gerr u]\<rparr>)"
      by (simp add: step_def)
    moreover have "busy (Worker 0) s" by simp
    ultimately show ?thesis by blast
  next
    case sending
    from sending(3) obtain j where j: "j < length (senders s)" and ne: "senders s ! j \<noteq> []"
      by (auto simp: in_set_conv_nth)
    from ne obtain t ts where "senders s ! j = t # ts" by (cases "senders s ! j") simp_all
    with j sending(2) nw have "step w c e (Sender j) s
        = Some (s\<lparr>ch := ch s @ [t], senders := (senders s)[j := ts]\<rparr>)"
      by (simp add: step_def)
    moreover have "busy (Sender j) s" by simp
    ultimately show ?thesis by blast
  next
    case idle
    show ?thesis
    proof (cases "main s")
      case (M_seed ts)
      show ?thesis
      proof (cases ts)
        case Nil
        with M_seed have "step w c e Main s = Some (s\<lparr>main := M_wait (int (nworkers w))\<rparr>)"
          by (simp add: step_def)
        moreover have "busy Main s" by simp
        ultimately show ?thesis by blast
      next
        case (Cons u us)
        with M_seed idle(2) nw have "step w c e Main s
            = Some (s\<lparr>ch := ch s @ [u], main := M_seed us\<rparr>)"
          by (simp add: step_def)
        moreover have "busy Main s" by simp
        ultimately show ?thesis by blast
      qed
    next
      case (M_wait k)
      with idle have "outstanding s = 0" by (simp add: outstanding_0)
      with cnt have z: "tasks s = 0" by (simp add: counters_inv_def)
      with M_wait have "step w c e MainTimer s = Some (s\<lparr>main := M_defer (gerr s)\<rparr>)"
        by (simp add: step_def)
      moreover from z have "busy MainTimer s" by simp
      ultimately show ?thesis by blast
    next
      case (M_defer r)
      then have "\<exists>s'. step w c e Main s = Some s'" by (simp add: step_def)
      moreover have "busy Main s" by simp
      ultimately show ?thesis by blast
    next
      case (M_emit r cur)
      then have "\<exists>s'. step w c e Main s = Some s'" by (simp add: step_def)
      moreover have "busy Main s" by simp
      ultimately show ?thesis by blast
    next
      case (M_emit_total r tot)
      then have "\<exists>s'. step w c e Main s = Some s'" by (simp add: step_def)
      moreover have "busy Main s" by simp
      ultimately show ?thesis by blast
    next
      case (M_returned r)
      with nr show ?thesis by simp
    qed
  qed
qed

lemma Recurse_exec:
  "parse_urls (URLs c) = Inr urls \<Longrightarrow>
     Recurse w c e acts = Inr (Some s) \<longleftrightarrow> exec w c e acts (init_state w urls) = Some s"
  by (simp add: Recurse_def)

lemma held_le_outstanding: "pc \<in> set (workers s) \<Longrightarrow> held pc \<le> outstanding s"
  using member_le_sum_list [of "held pc" "map held (workers s)"]
  by (simp add: outstanding_def)

text \<open>
  C2. Take a crawl whose seeds are \<open>urls\<close> and whose reachable tasks, \<open>crawl_tasks\<close>, have
  finitely many URL strings between them.

  \<^item> It terminates: from the states that runs reach (cancelled or not), there is no infinite
    sequence of steps of its goroutines; and in a run without a cancellation some goroutine
    can make such a step as long as \<open>Recurse\<close> has not returned. A timer that fires while
    \<open>tasks\<close> is not 0 only makes \<open>Recurse\<close> wait again and is not counted as a step.
  \<^item> In a run without a cancellation that has discovered fewer than \<open>2^64\<close> tasks (the
    counter is a \<open>uint64\<close>), \<open>tasks\<close> is the number of tasks outstanding; a worker about to
    decrement it finds it positive; \<open>Recurse\<close> returns only with \<open>tasks\<close> at 0, and then
    without an error; and when \<open>tasks\<close> is 0 the traversal is complete (no seed is unsent,
    the channel is empty, no goroutine has a task to send, and every worker waits for a
    task) and \<open>tasks\<close> is 0 in every state that follows.
\<close>

theorem crawl_terminates:
  assumes urls: "parse_urls (URLs c) = Inr urls"
    and fin: "finite (task_key ` crawl_tasks c e urls)"
  shows
    "wf {(s', s). (\<exists>acts. Recurse w c e acts = Inr (Some s))
                  \<and> (\<exists>a. busy a s \<and> step w c e a s = Some s')}
     \<and> (\<forall>acts s. Recurse w c e acts = Inr (Some s) \<and> Cancel \<notin> set acts \<longrightarrow>
           ((\<forall>r. main s \<noteq> M_returned r) \<longrightarrow> (\<exists>a s'. busy a s \<and> step w c e a s = Some s'))
           \<and> (discovered (length urls) s < 2 ^ 64 \<longrightarrow>
                unat (tasks s) = outstanding s
                \<and> (W_doDone \<in> set (workers s) \<longrightarrow> tasks s \<noteq> 0)
                \<and> (\<forall>r. main s = M_returned r \<longrightarrow> r = None \<and> tasks s = 0)
                \<and> (tasks s = 0 \<longrightarrow>
                     unsent (main s) = 0 \<and> ch s = [] \<and> (\<forall>l \<in> set (senders s). l = [])
                     \<and> (\<forall>pc \<in> set (workers s). pc = W_recv)
                     \<and> (\<forall>acts' s'. exec w c e acts' s = Some s' \<longrightarrow> tasks s' = 0))))"
proof (intro conjI allI impI)
  let ?K = "task_key ` crawl_tasks c e urls"
  let ?R = "{(s', s). (\<exists>acts. Recurse w c e acts = Inr (Some s))
                  \<and> (\<exists>a. busy a s \<and> step w c e a s = Some s')}"
  have "?R \<subseteq> inv_image (less_than <*lex*> less_than) (\<lambda>s. (unvisited ?K s, work_left s))"
  proof (clarify)
    fix s' s acts a
    assume "Recurse w c e acts = Inr (Some s)" "busy a s" "step w c e a s = Some s'"
    with urls have "exec w c e acts (init_state w urls) = Some s" by (simp add: Recurse_exec)
    from step_decreases [OF exec_tasks_in [OF this] fin \<open>step w c e a s = Some s'\<close> \<open>busy a s\<close>]
    show "(s', s) \<in> inv_image (less_than <*lex*> less_than)
                     (\<lambda>s. (unvisited ?K s, work_left s))"
      by auto
  qed
  moreover have "wf (inv_image (less_than <*lex*> less_than)
                     (\<lambda>s. (unvisited ?K s, work_left s)))"
    by (intro wf_inv_image wf_lex_prod wf_less_than)
  ultimately show "wf ?R" by (rule wf_subset [rotated])
next
  fix acts s
  assume h: "Recurse w c e acts = Inr (Some s) \<and> Cancel \<notin> set acts"
    and nr: "\<forall>r. main s \<noteq> M_returned r"
  with urls have "exec w c e acts (init_state w urls) = Some s" by (simp add: Recurse_exec)
  from exec_uncancelled [OF this] h
  have "running w c s" "counters_inv (length urls) s" by (simp_all add: uncancelled_def)
  from can_move [OF this nr] show "\<exists>a s'. busy a s \<and> step w c e a s = Some s'" .
next
  fix acts s
  assume h: "Recurse w c e acts = Inr (Some s) \<and> Cancel \<notin> set acts"
    and b: "discovered (length urls) s < 2 ^ 64"
  with urls have "exec w c e acts (init_state w urls) = Some s" by (simp add: Recurse_exec)
  from exec_uncancelled [OF this] h
  have cnt: "counters_inv (length urls) s" by (simp add: uncancelled_def)
  from counters_unat(1) [OF cnt b] show "unat (tasks s) = outstanding s" .
next
  fix acts s
  assume h: "Recurse w c e acts = Inr (Some s) \<and> Cancel \<notin> set acts"
    and b: "discovered (length urls) s < 2 ^ 64" and d: "W_doDone \<in> set (workers s)"
  with urls have "exec w c e acts (init_state w urls) = Some s" by (simp add: Recurse_exec)
  from exec_uncancelled [OF this] h
  have cnt: "counters_inv (length urls) s" by (simp add: uncancelled_def)
  from held_le_outstanding [OF d] counters_unat(1) [OF cnt b]
  have "0 < unat (tasks s)" by simp
  then show "tasks s \<noteq> 0" by auto
next
  fix acts s r
  assume h: "Recurse w c e acts = Inr (Some s) \<and> Cancel \<notin> set acts"
    and b: "discovered (length urls) s < 2 ^ 64" and m: "main s = M_returned r"
  with urls have "exec w c e acts (init_state w urls) = Some s" by (simp add: Recurse_exec)
  from exec_uncancelled [OF this] h
  have cnt: "counters_inv (length urls) s" and ret: "returns_inv (length urls) s"
    by (simp_all add: uncancelled_def)
  from ret b m have "r = None" "outstanding s = 0" by (simp_all add: returns_inv_def)
  with cnt show "r = None" "tasks s = 0" by (simp_all add: counters_inv_def)
next
  fix acts s
  assume h: "Recurse w c e acts = Inr (Some s) \<and> Cancel \<notin> set acts"
    and b: "discovered (length urls) s < 2 ^ 64" and z: "tasks s = 0"
  with urls have "exec w c e acts (init_state w urls) = Some s" by (simp add: Recurse_exec)
  from exec_uncancelled [OF this] h
  have cnt: "counters_inv (length urls) s" by (simp add: uncancelled_def)
  from counters_unat(1) [OF cnt b] z have q: "outstanding s = 0" by simp
  then show "unsent (main s) = 0" "ch s = []" by (simp_all add: outstanding_0)
  from q show "\<forall>l \<in> set (senders s). l = []" by (simp add: outstanding_0)
  from q show "\<forall>pc \<in> set (workers s). pc = W_recv" by (simp add: outstanding_0)
  fix acts' s'
  assume ex: "exec w c e acts' s = Some s'"
  have "counters_inv (length urls) s'"
    by (rule exec_invariant [where P = "counters_inv (length urls)", OF ex cnt])
       (rule step_counters)
  with exec_quiet [OF ex q] show "tasks s' = 0" by (simp add: counters_inv_def)
qed

section \<open>An example run\<close>

text \<open>
  One page \<open>http://a/\<close> that links to itself and shows one image; the request for the
  image is answered with an error. Two workers; the schedule lets worker 0 do all the work.
\<close>

definition ex_env :: env where
  "ex_env =
     \<lparr>Do = (\<lambda>u r. if u = ''http://a/'' then Inr ''A'' else Inl (Err ''404'')),
      NewDocumentFromReader = (\<lambda>b. Inr (\<lambda>q.
        if q = ''a'' then [\<lparr>Text = [], Attrs = [(''href'', ''http://a/'')]\<rparr>]
        else if q = ''img'' then [\<lparr>Text = [], Attrs = [(''src'', ''http://a/i.png'')]\<rparr>]
        else []))\<rparr>"

definition ex_rc :: RecursiveConfig where
  "ex_rc =
     \<lparr>Selectors = \<lparr>sel_Links = NewSelector ''a[href]'', sel_Downloads = NewSelector ''img[src]'',
                    sel_Prints = [], sel_Titles = []\<rparr>,
      URLs = [''http://a/''], Download = Some (\<lambda>_. True),
      DownloadCallback = Some (\<lambda>_ _. None), PrintCallback = None,
      ProgressInterval = 50000000, ReverseLinks = False, ReverseDownloads = False\<rparr>"

definition ex_w :: Config where
  "ex_w = \<lparr>Concurrency = 2\<rparr>"

definition ex_acts :: "action list" where
  "ex_acts =
     [Main,
      Worker 0, Worker 0, Worker 0, Worker 0, Worker 0, Worker 0, Worker 0,
      Worker 0, Worker 0, Worker 0, Worker 0, Worker 0, Worker 0, Worker 0,
      Sender 0,
      Worker 0, Worker 0, Worker 0, Worker 0, Worker 0, Worker 0, Worker 0,
      Worker 0, Worker 0, Worker 0,
      Sender 0,
      Worker 0, Worker 0, Worker 0, Worker 0, Worker 0, Worker 0,
      Main, MainTimer, Main, Main]"

definition is_Progress :: "event \<Rightarrow> bool" where
  "is_Progress ev = (case ev of Progress err cur tot \<Rightarrow> True | _ \<Rightarrow> False)"

lemma ex_run_eval:
  "(case Recurse ex_w ex_rc ex_env ex_acts of
      Inr (Some s) \<Rightarrow>
        fetched (trace s) = [''http://a/'', ''http://a/i.png'']
        \<and> filter is_Progress (trace s) = [Progress None 1 3, Progress None 3 3]
        \<and> extracted (trace s) = 2
        \<and> main s = M_returned None \<and> tasks s = 0 \<and> ctxErr s = None
    | _ \<Rightarrow> False)"
  by code_simp

lemma ex_run:
  obtains s where "Recurse ex_w ex_rc ex_env ex_acts = Inr (Some s)"
    and "fetched (trace s) = [''http://a/'', ''http://a/i.png'']"
    and "filter is_Progress (trace s) = [Progress None 1 3, Progress None 3 3]"
    and "extracted (trace s) = 2"
    and "main s = M_returned None" and "tasks s = 0" and "ctxErr s = None"
  using ex_run_eval by (auto split: sum.splits option.splits)

theorem fetch_at_most_once_witness:
  "\<exists>s. Recurse ex_w ex_rc ex_env ex_acts = Inr (Some s)
       \<and> fetched (trace s) = [''http://a/'', ''http://a/i.png'']
       \<and> distinct (fetched (trace s))"
proof -
  from ex_run obtain s where run: "Recurse ex_w ex_rc ex_env ex_acts = Inr (Some s)"
    and f: "fetched (trace s) = [''http://a/'', ''http://a/i.png'']"
    by blast
  from fetch_at_most_once [OF run] run f show ?thesis by blast
qed

section \<open>The operands of the progress sink\<close>

text \<open>
  Two seeds and two workers. The page \<open>http://a/\<close> links to itself and shows one image,
  the page \<open>http://b/\<close> has neither links nor images.
\<close>

definition race_env :: env where
  "race_env =
     \<lparr>Do = (\<lambda>u r. if u = ''http://a/'' then Inr ''A''
                   else if u = ''http://b/'' then Inr ''B'' else Inl (Err ''404'')),
      NewDocumentFromReader = (\<lambda>b. Inr (\<lambda>q.
        if b = ''A'' \<and> q = ''a'' then [\<lparr>Text = [], Attrs = [(''href'', ''http://a/'')]\<rparr>]
        else if b = ''A'' \<and> q = ''img''
          then [\<lparr>Text = [], Attrs = [(''src'', ''http://a/i.png'')]\<rparr>]
        else []))\<rparr>"

definition race_rc :: RecursiveConfig where
  "race_rc = ex_rc\<lparr>URLs := [''http://a/'', ''http://b/'']\<rparr>"

text \<open>
  Both seeds are sent and worker 0 receives \<open>http://a/\<close>. Worker 1 receives \<open>http://b/\<close>,
  fetches it and comes to line 118, where it reads \<open>dlTotal\<close>, which is 2. Before it reads
  \<open>dlCount\<close>, worker 0 fetches \<open>http://a/\<close>, adds its two children to \<open>dlTotal\<close>, reports
  2 of 4 and receives the image task, which makes \<open>dlCount\<close> 3. Then worker 1 reads
  \<open>dlCount\<close> and calls the sink.
\<close>

definition race_acts :: "action list" where
  "race_acts =
     [Main, Main,
      Worker 0,
      Worker 1, Worker 1, Worker 1, Worker 1, Worker 1, Worker 1, Worker 1,
      Worker 1, Worker 1, Worker 1, Worker 1,
      WorkerT 1,
      Worker 0, Worker 0, Worker 0, Worker 0, Worker 0, Worker 0, Worker 0,
      Worker 0, Worker 0, Worker 0, Worker 0, Worker 0, Worker 0,
      Sender 1,
      Worker 0, Worker 0, Worker 0, Worker 0,
      Worker 1]"

text \<open>
  C9. Line 118 reads \<open>dlCount\<close> and \<open>dlTotal\<close> without synchronisation while other workers
  add to both. In the run above the sink is called with 3 completed of 2 in total: the
  completed count exceeds the total.
\<close>

theorem progress_reads_race:
  "\<exists>s. Recurse ex_w race_rc race_env race_acts = Inr (Some s)
       \<and> filter is_Progress (trace s) = [Progress None 2 4, Progress None 3 2]
       \<and> dlCount s = 3 \<and> dlTotal s = 4
       \<and> unat (2 :: 64 word) < unat (3 :: 64 word)"
proof -
  have "(case Recurse ex_w race_rc race_env race_acts of
           Inr (Some s) \<Rightarrow>
             filter is_Progress (trace s) = [Progress None 2 4, Progress None 3 2]
             \<and> dlCount s = 3 \<and> dlTotal s = 4
         | _ \<Rightarrow> False)"
    by code_simp
  then show ?thesis by (auto split: sum.splits option.splits)
qed

section \<open>A task that ends in an error\<close>

text \<open>
  One seed, \<open>http://x/\<close>, whose request is answered with an error. Worker 0 receives the
  task and requests the page; after the eight steps of \<open>fail_prefix\<close> it stands before
  the call \<open>progress(err, false)\<close> of line 169 with that error.
\<close>

definition fail_rc :: RecursiveConfig where
  "fail_rc = ex_rc\<lparr>URLs := [''http://x/'']\<rparr>"

definition fail_prefix :: "action list" where
  "fail_prefix =
     [Main, Worker 0, Worker 0, Worker 0, Worker 0, Worker 0, Worker 0, Worker 0]"

definition fail_acts :: "action list" where
  "fail_acts = fail_prefix @ [Worker 0, Worker 0, Main, MainTimer, Main, Main]"

text \<open>
  C3. The error of a task does not reach the progress sink. \<open>errors.As\<close> with the target
  \<open>&context.Canceled\<close>, a pointer to a variable of the interface type \<open>error\<close>, is true for
  every error that is not \<open>nil\<close>, so \<open>progress\<close> returns at line 115 whenever it is given
  one. In the run above the request of the only task fails, the worker calls \<open>progress\<close>
  with the error, and when \<open>Recurse\<close> has returned the sink has been called once, by the
  deferred call, without an error.
\<close>

theorem task_error_not_reported:
  "\<exists>s1 s. Recurse ex_w fail_rc ex_env fail_prefix = Inr (Some s1)
       \<and> workers s1 ! 0 = W_progress (Some (Err ''404''))
       \<and> trace s1 = [Request ''http://x/'' None]
       \<and> Recurse ex_w fail_rc ex_env fail_acts = Inr (Some s)
       \<and> main s = M_returned None \<and> tasks s = 0
       \<and> trace s = [Request ''http://x/'' None, Progress None 1 1]"
proof -
  have "(case Recurse ex_w fail_rc ex_env fail_prefix of
           Inr (Some s1) \<Rightarrow>
             workers s1 ! 0 = W_progress (Some (Err ''404''))
             \<and> trace s1 = [Request ''http://x/'' None]
         | _ \<Rightarrow> False)"
    by code_simp
  moreover
  have "(case Recurse ex_w fail_rc ex_env fail_acts of
           Inr (Some s) \<Rightarrow>
             main s = M_returned None \<and> tasks s = 0
             \<and> trace s = [Request ''http://x/'' None, Progress None 1 1]
         | _ \<Rightarrow> False)"
    by code_simp
  ultimately show ?thesis by (auto split: sum.splits option.splits)
qed

section \<open>A download task without a predicate\<close>




section \<open>The children of a page with three images and two links\<close>







section \<open>The crawl of the first example terminates\<close>

definition ex_a :: url where
  "ex_a = \<lparr>Scheme = ''http'', Opaque = [], Host = ''a'', Path = ''/'', ForceQuery = False,
           RawQuery = [], Fragment = [], OmitHost = False\<rparr>"

definition ex_i :: url where
  "ex_i = \<lparr>Scheme = ''http'', Opaque = [], Host = ''a'', Path = ''/i.png'', ForceQuery = False,
           RawQuery = [], Fragment = [], OmitHost = False\<rparr>"

lemma ex_parse:
  "url_Parse ''http://a/'' = Inr ex_a" "url_Parse ''http://a/i.png'' = Inr ex_i"
  "url_String ex_a = ''http://a/''" "url_String ex_i = ''http://a/i.png''"
  by code_simp+

lemma ex_HREF: "HREF base ''http://a/'' = Inr ex_a" "HREF base ''http://a/i.png'' = Inr ex_i"
  by (simp_all add: HREF_def absURLRE_MatchString_def HasPrefix_def ex_parse)
     (simp_all add: ex_a_def ex_i_def)

lemma ex_selectors:
  "Selectors ex_rc =
     \<lparr>sel_Links = [\<lparr>Query = ''a'', Attr = ''href''\<rparr>],
      sel_Downloads = [\<lparr>Query = ''img'', Attr = ''src''\<rparr>], sel_Prints = [], sel_Titles = []\<rparr>"
  by code_simp

lemma ex_page:
  assumes "fst (page ex_env None pi (Selectors ex_rc) tr) = Some (Inr p)"
  shows "Links p = [ex_a]" and "Downloads p = [ex_i]"
  using assms
  by (auto simp: page_def get_def ex_env_def ex_selectors page_extract_def qry_def
      qry_each_def addLink_def ex_HREF page_prints_def Let_def split: if_splits)

lemma ex_urls: "parse_urls (URLs ex_rc) = Inr [ex_a]"
  by (simp add: ex_rc_def ex_parse)

lemma ex_keys:
  "t \<in> crawl_tasks ex_rc ex_env [ex_a] \<Longrightarrow> task_key t \<in> {''http://a/'', ''http://a/i.png''}"
proof (induction rule: crawl_tasks.induct)
  case (seed u)
  then show ?case by (simp add: seed_task_def task_key_def ex_parse)
next
  case (child t tr p t')
  from ex_page [OF child(3)] child(4) show ?case
    by (auto simp: children_def task_key_def ex_parse)
qed

lemma ex_finite: "finite (task_key ` crawl_tasks ex_rc ex_env [ex_a])"
  by (rule finite_subset [of _ "{''http://a/'', ''http://a/i.png''}"]) (use ex_keys in auto)

text \<open>
  The run of the first example when worker 0 has fetched the page, started the goroutine
  that sends its two children, and reported: it stands before \<open>doDone\<close>.
\<close>

definition mid_acts :: "action list" where
  "mid_acts =
     [Main,
      Worker 0, Worker 0, Worker 0, Worker 0, Worker 0, Worker 0, Worker 0,
      Worker 0, Worker 0, Worker 0, Worker 0, Worker 0, Worker 0]"

lemma mid_run_eval:
  "(case Recurse ex_w ex_rc ex_env mid_acts of
      Inr (Some s) \<Rightarrow>
        workers s = [W_doDone, W_recv] \<and> main s = M_seed [] \<and> extracted (trace s) = 2
        \<and> tasks s = 3
    | _ \<Rightarrow> False)"
  by code_simp

theorem crawl_terminates_witness:
  "parse_urls (URLs ex_rc) = Inr [ex_a]
   \<and> finite (task_key ` crawl_tasks ex_rc ex_env [ex_a])
   \<and> wf {(s', s). (\<exists>acts. Recurse ex_w ex_rc ex_env acts = Inr (Some s))
                  \<and> (\<exists>a. busy a s \<and> step ex_w ex_rc ex_env a s = Some s')}
   \<and> (\<exists>s. Recurse ex_w ex_rc ex_env mid_acts = Inr (Some s) \<and> Cancel \<notin> set mid_acts
          \<and> discovered (length [ex_a]) s < 2 ^ 64
          \<and> main s = M_seed [] \<and> W_doDone \<in> set (workers s)
          \<and> (\<exists>a s'. busy a s \<and> step ex_w ex_rc ex_env a s = Some s')
          \<and> tasks s = 3 \<and> outstanding s = 3 \<and> tasks s \<noteq> 0)
   \<and> (\<exists>s. Recurse ex_w ex_rc ex_env ex_acts = Inr (Some s) \<and> Cancel \<notin> set ex_acts
          \<and> discovered (length [ex_a]) s < 2 ^ 64
          \<and> main s = M_returned None \<and> tasks s = 0 \<and> outstanding s = 0
          \<and> ch s = [] \<and> (\<forall>l \<in> set (senders s). l = [])
          \<and> (\<forall>pc \<in> set (workers s). pc = W_recv)
          \<and> (\<forall>acts' s'. exec ex_w ex_rc ex_env acts' s = Some s' \<longrightarrow> tasks s' = 0))"
proof -
  note th = crawl_terminates [OF ex_urls ex_finite, of ex_w]
  from th have wf: "wf {(s', s). (\<exists>acts. Recurse ex_w ex_rc ex_env acts = Inr (Some s))
                  \<and> (\<exists>a. busy a s \<and> step ex_w ex_rc ex_env a s = Some s')}"
    by (rule conjunct1)
  note run = th [THEN conjunct2, rule_format]
  have mid: "\<exists>s. Recurse ex_w ex_rc ex_env mid_acts = Inr (Some s) \<and> Cancel \<notin> set mid_acts
          \<and> discovered (length [ex_a]) s < 2 ^ 64
          \<and> main s = M_seed [] \<and> W_doDone \<in> set (workers s)
          \<and> (\<exists>a s'. busy a s \<and> step ex_w ex_rc ex_env a s = Some s')
          \<and> tasks s = 3 \<and> outstanding s = 3 \<and> tasks s \<noteq> 0"
  proof -
    from mid_run_eval obtain s where r: "Recurse ex_w ex_rc ex_env mid_acts = Inr (Some s)"
      and w: "workers s = [W_doDone, W_recv]" and m: "main s = M_seed []"
      and x: "extracted (trace s) = 2" and t: "tasks s = 3"
      by (auto split: sum.splits option.splits)
    have nc: "Cancel \<notin> set mid_acts" by (simp add: mid_acts_def)
    from x have b: "discovered (length [ex_a]) s < 2 ^ 64" by (simp add: discovered_def)
    from w have d: "W_doDone \<in> set (workers s)" by simp
    from m have nr: "\<forall>r. main s \<noteq> M_returned r" by simp
    from r nc have h: "Recurse ex_w ex_rc ex_env mid_acts = Inr (Some s) \<and> Cancel \<notin> set mid_acts"
      by simp
    from run [OF h] nr have mv: "\<exists>a s'. busy a s \<and> step ex_w ex_rc ex_env a s = Some s'"
      by blast
    from run [OF h] b have u: "unat (tasks s) = outstanding s" by blast
    from run [OF h] b d have nz: "tasks s \<noteq> 0" by blast
    from u t have "outstanding s = 3" by simp
    with r nc b m d mv t nz show ?thesis by blast
  qed
  have fin: "\<exists>s. Recurse ex_w ex_rc ex_env ex_acts = Inr (Some s) \<and> Cancel \<notin> set ex_acts
          \<and> discovered (length [ex_a]) s < 2 ^ 64
          \<and> main s = M_returned None \<and> tasks s = 0 \<and> outstanding s = 0
          \<and> ch s = [] \<and> (\<forall>l \<in> set (senders s). l = [])
          \<and> (\<forall>pc \<in> set (workers s). pc = W_recv)
          \<and> (\<forall>acts' s'. exec ex_w ex_rc ex_env acts' s = Some s' \<longrightarrow> tasks s' = 0)"
  proof -
    from ex_run obtain s where r: "Recurse ex_w ex_rc ex_env ex_acts = Inr (Some s)"
      and x: "extracted (trace s) = 2" and m: "main s = M_returned None"
      by blast
    have nc: "Cancel \<notin> set ex_acts" by (simp add: ex_acts_def)
    from x have b: "discovered (length [ex_a]) s < 2 ^ 64" by (simp add: discovered_def)
    from r nc have h: "Recurse ex_w ex_rc ex_env ex_acts = Inr (Some s) \<and> Cancel \<notin> set ex_acts"
      by simp
    from run [OF h] b m have z: "tasks s = 0" by blast
    from run [OF h] b have u: "unat (tasks s) = outstanding s" by blast
    with z have o: "outstanding s = 0" by simp
    from run [OF h] b z have "ch s = []" "\<forall>l \<in> set (senders s). l = []"
      "\<forall>pc \<in> set (workers s). pc = W_recv"
      "\<forall>acts' s'. exec ex_w ex_rc ex_env acts' s = Some s' \<longrightarrow> tasks s' = 0"
      by blast+
    with r nc b m z o show ?thesis by blast
  qed
  from ex_urls ex_finite wf mid fin show ?thesis by blast
qed

end
